theory Spec2Isabelle
  imports Main
begin

section \<open>JavaScript strings\<close>

text \<open>
  A JavaScript string is a sequence of UTF-16 code units. A code unit is modelled as a
  natural number (below 65536 in every string the program can receive), so that the heart
  sign U+2661 of the test suite is the single unit 9825. \<open>js\<close> turns an ASCII literal
  into such a string.
\<close>

type_synonym jschar = nat
type_synonym jsstring = "jschar list"

definition ch :: "char \<Rightarrow> jschar" where
  "ch c = of_char c"

definition js :: "string \<Rightarrow> jsstring" where
  "js s = map ch s"

text \<open>The classes LineTerminator and WhiteSpace of ECMAScript; \<open>\s\<close> and \<open>trim\<close> use both.\<close>

definition isLineTerminator :: "jschar \<Rightarrow> bool" where
  "isLineTerminator c = (c = 10 \<or> c = 13 \<or> c = 8232 \<or> c = 8233)"

definition isWhiteSpace :: "jschar \<Rightarrow> bool" where
  "isWhiteSpace c = (c = 9 \<or> c = 11 \<or> c = 12 \<or> c = 32 \<or> c = 160 \<or> c = 5760
     \<or> (8192 \<le> c \<and> c \<le> 8202) \<or> c = 8239 \<or> c = 8287 \<or> c = 12288 \<or> c = 65279)"

definition isSpace :: "jschar \<Rightarrow> bool" where
  "isSpace c = (isWhiteSpace c \<or> isLineTerminator c)"

definition trim :: "jsstring \<Rightarrow> jsstring" where
  "trim s = rev (dropWhile isSpace (rev (dropWhile isSpace s)))"

definition startsWith :: "jsstring \<Rightarrow> jsstring \<Rightarrow> bool" where
  "startsWith s p = (take (length p) s = p)"

definition endsWith :: "jsstring \<Rightarrow> jsstring \<Rightarrow> bool" where
  "endsWith s p = (length p \<le> length s \<and> drop (length s - length p) s = p)"

fun str_includes :: "jsstring \<Rightarrow> jsstring \<Rightarrow> bool" where
  "str_includes [] p = (p = [])"
| "str_includes (c # cs) p = (startsWith (c # cs) p \<or> str_includes cs p)"

text \<open>\<open>s.at(-1)\<close>: the last code unit, \<open>undefined\<close> (None) on the empty string.\<close>

definition at_last :: "jsstring \<Rightarrow> jschar option" where
  "at_last s = (if s = [] then None else Some (last s))"

text \<open>
  \<open>xs.slice(a, -k)\<close> for \<open>k > 0\<close>, on strings and on arrays: from index \<open>a\<close> up to
  \<open>k\<close> elements before the end; empty when the two cross.
\<close>

definition slice_to_end :: "'a list \<Rightarrow> nat \<Rightarrow> nat \<Rightarrow> 'a list" where
  "slice_to_end xs a k = drop a (take (length xs - k) xs)"

text \<open>\<open>s.split(sep)\<close> for a separator of one code unit: every occurrence cuts.\<close>

function split :: "jschar \<Rightarrow> jsstring \<Rightarrow> jsstring list" where
  "split sep s =
     (case dropWhile (\<lambda>c. c \<noteq> sep) s of
        [] \<Rightarrow> [s]
      | _ # r \<Rightarrow> takeWhile (\<lambda>c. c \<noteq> sep) s # split sep r)"
  by pat_completeness auto
termination
proof (relation "measure (\<lambda>(sep, s). length s)")
  show "wf (measure (\<lambda>(sep, s). length s))" by simp
next
  fix sep x :: jschar and s r :: jsstring
  assume "dropWhile (\<lambda>c. c \<noteq> sep) s = x # r"
  then have "length r < length (dropWhile (\<lambda>c. c \<noteq> sep) s)" by simp
  also have "\<dots> \<le> length s" by (rule length_dropWhile_le)
  finally show "((sep, r), (sep, s)) \<in> measure (\<lambda>(sep, s). length s)" by simp
qed

fun join :: "jsstring \<Rightarrow> jsstring list \<Rightarrow> jsstring" where
  "join sep [] = []"
| "join sep [x] = x"
| "join sep (x # y # ys) = x @ sep @ join sep (y # ys)"

text \<open>\<open>s.replace(pat, rep)\<close> with a string pattern: the first occurrence only.\<close>

fun replace_first :: "jsstring \<Rightarrow> jsstring \<Rightarrow> jsstring \<Rightarrow> jsstring" where
  "replace_first pat rep [] = (if pat = [] then rep else [])"
| "replace_first pat rep (c # cs) =
     (if startsWith (c # cs) pat then rep @ drop (length pat) (c # cs)
      else c # replace_first pat rep cs)"

text \<open>
  \<open>toLowerCase\<close>. The units A to Z go to a to z; U+0130 becomes i followed by U+0307 and
  the Kelvin sign U+212A becomes k. Every other unit is mapped by JavaScript to units
  outside ASCII and is left as it is here: the program only tests the result for an ASCII
  suffix, which that does not change.
\<close>

definition lower_unit :: "jschar \<Rightarrow> jsstring" where
  "lower_unit c =
     (if 65 \<le> c \<and> c \<le> 90 then [c + 32]
      else if c = 304 then [105, 775]
      else if c = 8490 then [107]
      else [c])"

definition toLowerCase :: "jsstring \<Rightarrow> jsstring" where
  "toLowerCase s = concat (map lower_unit s)"

text \<open>
  Canonicalize of a regular expression with the flag \<open>i\<close> and without \<open>u\<close>: a to z go to
  A to Z, and a unit outside ASCII never canonicalizes to an ASCII unit, so against the
  ASCII letters of a pattern it behaves as if left unchanged.
\<close>

definition canonicalize :: "jschar \<Rightarrow> jschar" where
  "canonicalize c = (if 97 \<le> c \<and> c \<le> 122 then c - 32 else c)"

section \<open>The regular expression that strips the markdown extension\<close>

text \<open>
  \<open>/.(md|markdown)\s?$/i\<close>, as used by \<open>parts[0].replace(..., "")\<close>. \<open>md_tail r\<close> says
  that \<open>r\<close> is matched in full by \<open>(md|markdown)\s?$\<close>; \<open>md_match s\<close> says that the
  expression matches at the start of \<open>s\<close> (the dot takes any unit but a line terminator),
  and then the match runs to the end of the string. \<open>replace_md\<close> removes the leftmost
  match.
\<close>

definition md_tail :: "jsstring \<Rightarrow> bool" where
  "md_tail r =
     (\<exists>e \<in> set [js ''MD'', js ''MARKDOWN''].
        length e \<le> length r \<and> map canonicalize (take (length e) r) = e \<and>
        (case drop (length e) r of [] \<Rightarrow> True | [w] \<Rightarrow> isSpace w | _ \<Rightarrow> False))"

definition md_match :: "jsstring \<Rightarrow> bool" where
  "md_match s = (case s of [] \<Rightarrow> False | c # r \<Rightarrow> \<not> isLineTerminator c \<and> md_tail r)"

fun replace_md :: "jsstring \<Rightarrow> jsstring" where
  "replace_md [] = []"
| "replace_md (c # cs) = (if md_match (c # cs) then [] else c # replace_md cs)"

section \<open>The link extractor\<close>

text \<open>
  \<open>wikiLinkRegExp = /(?<!!)(!?)\[\[([^|\n]+?)(\|([^\n]+?))?]]/g\<close>, matched by
  backtracking as JavaScript does. Each function takes the text at the current position
  and returns the text matched from there together with what follows it.
\<close>

text \<open>\<open>[^\n]+?]]\<close>: the title, as short as possible, then the closing brackets.\<close>

fun match_title :: "jsstring \<Rightarrow> (jsstring \<times> jsstring) option" where
  "match_title [] = None"
| "match_title (c # cs) =
     (if c = ch CHR 0x0A then None
      else if startsWith cs (js '']]'') then Some (c # js '']]'', drop 2 cs)
      else (case match_title cs of
              None \<Rightarrow> None
            | Some (m, r) \<Rightarrow> Some (c # m, r)))"

text \<open>\<open>(\|([^\n]+?))?]]\<close>: the optional group is tried first, then skipped.\<close>

definition match_rest :: "jsstring \<Rightarrow> (jsstring \<times> jsstring) option" where
  "match_rest s =
     (case (case s of
              [] \<Rightarrow> None
            | c # cs \<Rightarrow> if c = ch CHR ''|''
                        then (case match_title cs of
                                None \<Rightarrow> None
                              | Some (m, r) \<Rightarrow> Some (c # m, r))
                        else None) of
        Some res \<Rightarrow> Some res
      | None \<Rightarrow> if startsWith s (js '']]'') then Some (js '']]'', drop 2 s) else None)"

text \<open>\<open>[^|\n]+?\<close> followed by the rest: the name, as short as possible.\<close>

fun match_name :: "jsstring \<Rightarrow> (jsstring \<times> jsstring) option" where
  "match_name [] = None"
| "match_name (c # cs) =
     (if c = ch CHR ''|'' \<or> c = ch CHR 0x0A then None
      else (case match_rest cs of
              Some (m, r) \<Rightarrow> Some (c # m, r)
            | None \<Rightarrow> (case match_name cs of
                         None \<Rightarrow> None
                       | Some (m, r) \<Rightarrow> Some (c # m, r))))"

text \<open>\<open>\[\[\<close> and what follows.\<close>

definition match_open :: "jsstring \<Rightarrow> (jsstring \<times> jsstring) option" where
  "match_open s =
     (if startsWith s (js ''[['')
      then (case match_name (drop 2 s) of
              None \<Rightarrow> None
            | Some (m, r) \<Rightarrow> Some (js ''[['' @ m, r))
      else None)"

text \<open>
  The whole expression at one position; \<open>prev\<close> is the code unit before that position,
  None at the start of the text. \<open>(?<!!)\<close> looks at it; \<open>(!?)\<close> takes the mark when it
  is there and is tried empty otherwise.
\<close>

definition wikiLinkRegExp :: "jschar option \<Rightarrow> jsstring \<Rightarrow> (jsstring \<times> jsstring) option" where
  "wikiLinkRegExp prev s =
     (if prev = Some (ch CHR ''!'') then None
      else (case (case s of
                    [] \<Rightarrow> None
                  | c # cs \<Rightarrow> if c = ch CHR ''!''
                              then (case match_open cs of
                                      None \<Rightarrow> None
                                    | Some (m, r) \<Rightarrow> Some (c # m, r))
                              else None) of
              Some res \<Rightarrow> Some res
            | None \<Rightarrow> match_open s))"

text \<open>
  \<open>document.match(wikiLinkRegExp) || []\<close> with the flag \<open>g\<close>: every match from left to
  right, the search resuming where the last match ended. \<open>skip\<close> counts the code units
  of the last match that are still to be passed over.
\<close>

fun match_all :: "nat \<Rightarrow> jschar option \<Rightarrow> jsstring \<Rightarrow> jsstring list" where
  "match_all skip prev [] = []"
| "match_all (Suc k) prev (c # cs) = match_all k (Some c) cs"
| "match_all 0 prev (c # cs) =
     (case wikiLinkRegExp prev (c # cs) of
        Some (m, r) \<Rightarrow> m # match_all (length m - 1) (Some c) cs
      | None \<Rightarrow> match_all 0 (Some c) cs)"

definition match_document :: "jsstring \<Rightarrow> jsstring list" where
  "match_document document = match_all 0 None document"

text \<open>
  The code unit before position \<open>i\<close> of a text \<open>s\<close> that itself follows \<open>prev\<close>: what
  \<open>(?<!!)\<close> looks at when the expression is tried at position \<open>i\<close>.
\<close>

definition unit_before :: "jschar option \<Rightarrow> jsstring \<Rightarrow> nat \<Rightarrow> jschar option" where
  "unit_before prev s i = (if i = 0 then prev else Some (s ! (i - 1)))"

section \<open>Records of the interpreter\<close>

text \<open>
  A document of the page index, as far as the parser reads it: \<open>page.data.title\<close>,
  \<open>page.url\<close> and \<open>page.inputPath\<close>. None stands for \<open>undefined\<close> and \<open>null\<close>.
\<close>

record page =
  data_title :: "jsstring option"
  url :: "jsstring option"
  inputPath :: "jsstring option"

record meta =
  title :: "jsstring option"
  name :: jsstring
  anchor :: "jsstring option"
  link :: jsstring
  isEmbed :: bool
  isPath :: bool
  exists :: bool
  resolvingFnName :: jsstring
  isImage :: bool
  href :: "jsstring option"
  path :: "jsstring option"
  page :: "page option"

text \<open>What \<open>pageDirectory.findByLink(meta)\<close> answers; the page index is a collaborator.\<close>

record find_result =
  res_page :: "page option"
  found :: bool
  foundByAlias :: bool

type_synonym pageDirectory = "meta \<Rightarrow> find_result"

text \<open>What \<open>findImageFile\<close> returns when it does not return \<open>null\<close>.\<close>

record image_result =
  img_exists :: bool
  img_href :: jsstring
  fullPath :: jsstring

text \<open>
  The options the parser reads: of \<open>resolvingFns\<close> only the keys (None when the option is
  absent), and \<open>stubUrl\<close>.
\<close>

record options =
  resolvingFns :: "jsstring list option"
  stubUrl :: "jsstring option"

text \<open>
  A parser instance without its two shared tables. \<open>findImageFile\<close> searches the file
  system through \<open>node:fs\<close> and \<open>node:path\<close>; it is taken as a function of its three
  arguments, and so is \<open>path.basename(name, path.extname(name))\<close>.
\<close>

record parser =
  opts :: options
  inputDir :: jsstring
  findImageFile :: "jsstring \<Rightarrow> jsstring \<Rightarrow> jsstring option \<Rightarrow> image_result option"
  basename_noext :: "jsstring \<Rightarrow> jsstring"

text \<open>
  The shared tables. The records are objects: \<open>heap\<close> holds every record the parser has
  returned, a reference is an index into it, and the cache maps a raw token to a reference.
\<close>

type_synonym ref = nat

record state =
  heap :: "meta list"
  linkCache :: "jsstring \<rightharpoonup> ref"
  deadLinks :: "jsstring set"

text \<open>
  Both failures are a plain \<open>Error\<close> in the source and differ by their message; they are
  named here as the specification names them.
\<close>

datatype error =
    MissingContextError
  | UnresolvedResolverError jsstring jsstring "jsstring option"



section \<open>The interpreter\<close>

text \<open>\<open>!x\<close> on a string that may be \<open>undefined\<close> or \<open>null\<close>.\<close>

definition falsy :: "jsstring option \<Rightarrow> bool" where
  "falsy x = (case x of None \<Rightarrow> True | Some s \<Rightarrow> s = [])"

definition isImageFile :: "jsstring \<Rightarrow> bool" where
  "isImageFile filename =
     (\<exists>ext \<in> set [js ''.jpg'', js ''.jpeg'', js ''.png'', js ''.gif'', js ''.svg'', js ''.webp''].
        endsWith (toLowerCase filename) ext)"

text \<open>\<open>link.slice((isEmbed ? 3 : 2), -2).split("|").map(part => part.trim())\<close>\<close>

definition parts :: "jsstring \<Rightarrow> jsstring list" where
  "parts lnk =
     map trim (split (ch CHR ''|'')
       (slice_to_end lnk (if startsWith lnk (js ''!'') then 3 else 2) 2))"

text \<open>The record as it is first built (title split).\<close>

definition title_split :: "jsstring \<Rightarrow> meta" where
  "title_split lnk =
     \<lparr> title = (if length (parts lnk) = 2 then Some (parts lnk ! 1) else None),
       name = replace_md (parts lnk ! 0),
       anchor = None,
       link = lnk,
       isEmbed = startsWith lnk (js ''!''),
       isPath = False,
       exists = False,
       resolvingFnName = (if startsWith lnk (js ''!'') then js ''default-embed'' else js ''default''),
       isImage = False,
       href = None,
       path = None,
       page = None \<rparr>"

text \<open>Anchor link identification; \<open>nameParts\<close> is cut from \<open>parts[0]\<close>, not from the name.\<close>

definition anchor_identification :: "jsstring \<Rightarrow> meta \<Rightarrow> meta" where
  "anchor_identification lnk m =
     (if str_includes (name m) (js ''#'')
      then (let nameParts = map trim (split (ch CHR ''#'') (parts lnk ! 0))
            in if at_last (nameParts ! 0) \<noteq> Some (ch CHR ''/'')
               then m\<lparr> name := nameParts ! 0, anchor := Some (nameParts ! 1) \<rparr>
               else m\<lparr> name := replace_first (js ''/#'') (js ''#'') (name m) \<rparr>)
      else m)"

text \<open>Path link identification; a relative path needs \<open>filePathStem\<close>.\<close>

definition path_identification :: "jsstring option \<Rightarrow> meta \<Rightarrow> error + meta" where
  "path_identification filePathStem m0 =
     (let m = m0\<lparr> isPath := (startsWith (name m0) (js ''/'') \<or> startsWith (name m0) (js ''../'')
                              \<or> startsWith (name m0) (js ''./'')) \<rparr>
      in if isPath m \<and> startsWith (name m) (js ''.'')
         then (if falsy filePathStem
               then Inl MissingContextError
               else (let cwd = split (ch CHR ''/'') (the filePathStem);
                         relative = split (ch CHR ''/'') (name m);
                         stepsBack = length (filter (\<lambda>file. file = js ''..'') relative)
                     in Inr (m\<lparr> name := join (js ''/'')
                                  (slice_to_end cwd 0 (stepsBack + 1) @
                                   filter (\<lambda>file. file \<noteq> js ''..'' \<and> file \<noteq> js ''.'') relative) \<rparr>)))
         else Inr m)"

text \<open>Custom resolving function; an unknown prefix falls back on the page index.\<close>

definition custom_resolving_fn ::
  "options \<Rightarrow> pageDirectory \<Rightarrow> jsstring \<Rightarrow> jsstring option \<Rightarrow> meta \<Rightarrow> error + meta" where
  "custom_resolving_fn os pageDirectory lnk filePathStem m =
     (if str_includes (name m) (js '':'')
      then (let ps = map trim (split (ch CHR '':'') (name m))
            in if at_last (ps ! 0) \<noteq> Some (ch CHR ''/'')
               then (if (case resolvingFns os of None \<Rightarrow> True | Some ks \<Rightarrow> ps ! 0 \<notin> set ks)
                     then (if \<not> found (pageDirectory m)
                           then Inl (UnresolvedResolverError (ps ! 0) lnk filePathStem)
                           else Inr m)
                     else Inr (m\<lparr> resolvingFnName := ps ! 0, name := ps ! 1 \<rparr>))
               else Inr (m\<lparr> name := replace_first (js ''/:'') (js '':'') (name m) \<rparr>))
      else Inr m)"

text \<open>Image embed: only for an embed whose name has an image extension.\<close>

definition image_embed ::
  "parser \<Rightarrow> jsstring \<Rightarrow> jsstring option \<Rightarrow> meta \<Rightarrow> jsstring set \<Rightarrow> meta \<times> jsstring set" where
  "image_embed this lnk filePathStem m0 dead =
     (if isEmbed m0 \<and> isImageFile (name m0)
      then (let m = m0\<lparr> isImage := True, resolvingFnName := js ''image-embed'' \<rparr>;
                imageResult = findImageFile this (name m) (inputDir this) filePathStem
            in case imageResult of
                 None \<Rightarrow>
                   (m\<lparr> href := stubUrl (opts this), resolvingFnName := js ''404-embed'' \<rparr>,
                    insert lnk dead)
               | Some ir \<Rightarrow>
                   if img_exists ir
                   then (m\<lparr> exists := True, href := Some (img_href ir), path := Some (fullPath ir),
                            title := (if falsy (title m) then Some (basename_noext this (name m))
                                      else title m) \<rparr>,
                         dead)
                   else (m\<lparr> href := stubUrl (opts this), resolvingFnName := js ''404-embed'' \<rparr>,
                         insert lnk dead))
      else (m0, dead))"

text \<open>Lookup in the page index, skipped for an image; a miss of a default link is dead.\<close>

definition page_lookup ::
  "parser \<Rightarrow> pageDirectory \<Rightarrow> jsstring \<Rightarrow> meta \<Rightarrow> jsstring set \<Rightarrow> meta \<times> jsstring set" where
  "page_lookup this pageDirectory lnk m dead =
     (if \<not> isImage m
      then (case res_page (pageDirectory m) of
              Some p \<Rightarrow>
                (m\<lparr> title := (if foundByAlias (pageDirectory m) then Some (name m)
                              else if title m = None \<and> \<not> falsy (data_title p) then data_title p
                              else title m),
                    href := url p, path := inputPath p, exists := True, page := Some p \<rparr>,
                 dead)
            | None \<Rightarrow>
                if resolvingFnName m = js ''default'' \<or> resolvingFnName m = js ''default-embed''
                then (m\<lparr> href := stubUrl (opts this),
                         resolvingFnName := (if startsWith lnk (js ''!'') then js ''404-embed''
                                             else resolvingFnName m) \<rparr>,
                      insert lnk dead)
                else (m, dead))
      else (m, dead))"

text \<open>The name as path identification finds it: after the title and the anchor split.\<close>

definition working_name :: "jsstring \<Rightarrow> jsstring" where
  "working_name lnk = name (anchor_identification lnk (title_split lnk))"

text \<open>
  The steps that can throw, in the order of the source; they read the tables only.
\<close>

definition interpret_link ::
  "parser \<Rightarrow> pageDirectory \<Rightarrow> jsstring \<Rightarrow> jsstring option \<Rightarrow> error + meta" where
  "interpret_link this pageDirectory lnk filePathStem =
     (case path_identification filePathStem (anchor_identification lnk (title_split lnk)) of
        Inl e \<Rightarrow> Inl e
      | Inr m \<Rightarrow> custom_resolving_fn (opts this) pageDirectory lnk filePathStem m)"

text \<open>
  \<open>parseSingle\<close>. A cached token returns the cached reference. Otherwise the record is
  built, stored as a new object, entered in the cache and its reference returned; an error
  leaves before any table is written.
\<close>

definition parseSingle ::
  "parser \<Rightarrow> pageDirectory \<Rightarrow> state \<Rightarrow> jsstring \<Rightarrow> jsstring option \<Rightarrow> (error + ref) \<times> state" where
  "parseSingle this pageDirectory st lnk filePathStem =
     (case linkCache st lnk of
        Some r \<Rightarrow> (Inr r, st)
      | None \<Rightarrow>
          (case interpret_link this pageDirectory lnk filePathStem of
             Inl e \<Rightarrow> (Inl e, st)
           | Inr m6 \<Rightarrow>
               (let (m7, dead7) = image_embed this lnk filePathStem m6 (deadLinks st);
                    (m8, dead8) = page_lookup this pageDirectory lnk m7 dead7;
                    r = length (heap st)
                in (Inr r, \<lparr> heap = heap st @ [m8],
                             linkCache = (linkCache st)(lnk \<mapsto> r),
                             deadLinks = dead8 \<rparr>))))"

text \<open>\<open>links.map(link => this.parseSingle(...))\<close>: the first error ends the loop.\<close>

fun parseMultiple ::
  "parser \<Rightarrow> pageDirectory \<Rightarrow> state \<Rightarrow> jsstring list \<Rightarrow> jsstring option \<Rightarrow> (error + ref list) \<times> state" where
  "parseMultiple this pageDirectory st [] filePathStem = (Inr [], st)"
| "parseMultiple this pageDirectory st (l # ls) filePathStem =
     (case parseSingle this pageDirectory st l filePathStem of
        (Inl e, st') \<Rightarrow> (Inl e, st')
      | (Inr r, st') \<Rightarrow>
          (case parseMultiple this pageDirectory st' ls filePathStem of
             (Inl e, st'') \<Rightarrow> (Inl e, st'')
           | (Inr rs, st'') \<Rightarrow> (Inr (r # rs), st'')))"

definition find_wikilinks ::
  "parser \<Rightarrow> pageDirectory \<Rightarrow> state \<Rightarrow> jsstring \<Rightarrow> jsstring option \<Rightarrow> (error + ref list) \<times> state" where
  "find_wikilinks this pageDirectory st document filePathStem =
     parseMultiple this pageDirectory st (match_document document) filePathStem"

text \<open>The record a call returned, read through the reference.\<close>

definition returned :: "(error + ref) \<times> state \<Rightarrow> error + meta" where
  "returned res = (case res of (Inl e, st) \<Rightarrow> Inl e | (Inr r, st) \<Rightarrow> Inr (heap st ! r))"

section \<open>The grammar in the words of the specification\<close>

text \<open>
  A token has the form \<open>(!)?[[X(|Y)?]]\<close>: an optional mark, two opening brackets, a name
  segment \<open>X\<close> with no bar and no newline, optionally a bar and a title segment \<open>Y\<close>
  with no newline, and two closing brackets; here both segments are required to be
  non-empty. \<open>X\<close> is the inner text up to its first bar, \<open>Y\<close> what follows that bar.
\<close>

definition segments_ok :: "jsstring \<Rightarrow> bool" where
  "segments_ok inner =
     (let X = takeWhile (\<lambda>c. c \<noteq> ch CHR ''|'') inner;
          rest = dropWhile (\<lambda>c. c \<noteq> ch CHR ''|'') inner
      in X \<noteq> [] \<and> ch CHR 0x0A \<notin> set X \<and>
         (rest = [] \<or> tl rest \<noteq> [] \<and> ch CHR 0x0A \<notin> set (tl rest)))"

definition wikilink_form :: "jsstring \<Rightarrow> bool" where
  "wikilink_form t =
     (let body = (if startsWith t (js ''!'') then drop 1 t else t)
      in 4 \<le> length body \<and> startsWith body (js ''[['') \<and> endsWith body (js '']]'') \<and>
         segments_ok (slice_to_end body 2 2))"

section \<open>The lifetime of the shared tables\<close>

text \<open>
  The tables are handed to the parser once and shared by every call. A later call may come
  with any page index, token and referencing path, and, since \<open>setInputDir\<close> and the
  file system can change between calls, with any parser record. \<open>after_calls\<close> is the
  state of the tables after a sequence of such calls, whether they return or throw.
\<close>

type_synonym call = "parser \<times> pageDirectory \<times> jsstring \<times> jsstring option"

fun after_calls :: "state \<Rightarrow> call list \<Rightarrow> state" where
  "after_calls st [] = st"
| "after_calls st ((this, pageDirectory, lnk, filePathStem) # cs) =
     after_calls (snd (parseSingle this pageDirectory st lnk filePathStem)) cs"

text \<open>Every reference the cache holds points to a stored record.\<close>

definition cache_valid :: "state \<Rightarrow> bool" where
  "cache_valid st = (\<forall>r \<in> ran (linkCache st). r < length (heap st))"

section \<open>Relative paths in the words of the specification\<close>

text \<open>
  The specification resolves a relative reference so: the steps back are the leading
  \<open>..\<close> segments of the reference; take the directory of the referencing document (its
  path without the last segment, the document's own file name), remove one segment from
  its end per step back, and append the remaining segments of the reference that are
  neither \<open>.\<close> nor \<open>..\<close>, all joined with \<open>/\<close>.
\<close>

definition resolve_relative :: "jsstring \<Rightarrow> jsstring \<Rightarrow> jsstring" where
  "resolve_relative referencingPath reference =
     (let segments = split (ch CHR ''/'') reference;
          stepsBack = length (takeWhile (\<lambda>seg. seg = js ''..'') segments);
          remaining = drop stepsBack segments;
          directory = butlast (split (ch CHR ''/'') referencingPath)
      in join (js ''/'')
           ((butlast ^^ stepsBack) directory @
            filter (\<lambda>seg. seg \<noteq> js ''..'' \<and> seg \<noteq> js ''.'') remaining))"

section \<open>A concrete setting\<close>

text \<open>
  \<open>path.basename(p, path.extname(p))\<close> of Node, for a path that does not end in a slash
  (the interpreter calls it on a name that ends in an image extension). The base is the
  text behind the last slash; its extension runs from its last dot to its end, and is
  empty when the base has no dot, when its only dot is its first unit, and for \<open>..\<close>.
\<close>

definition basename_without_extension :: "jsstring \<Rightarrow> jsstring" where
  "basename_without_extension p =
     (let base = last (split (ch CHR ''/'') p);
          stem = rev (tl (dropWhile (\<lambda>c. c \<noteq> ch CHR ''.'') (rev base)))
      in if ch CHR ''.'' \<notin> set base \<or> stem = [] \<or> base = js ''..'' then base else stem)"

text \<open>
  The options of the parser's test suite, a content tree without image files, a page index
  without pages and the two empty tables every test starts from.
\<close>

definition test_parser :: parser where
  "test_parser =
     \<lparr> opts = \<lparr> resolvingFns = Some [js ''default'', js ''default-embed'', js ''default-image''],
                stubUrl = Some (js ''/stubs/'') \<rparr>,
       inputDir = js ''/home/user/website'',
       findImageFile = (\<lambda>imagePath baseDir filePathStem. None),
       basename_noext = basename_without_extension \<rparr>"

text \<open>
  The options of the test \<open>sets resolvingFnName on finding resolvingFn\<close>: one custom
  resolver and no stub URL.
\<close>

definition custom_parser :: parser where
  "custom_parser =
     \<lparr> opts = \<lparr> resolvingFns = Some [js ''test''], stubUrl = None \<rparr>,
       inputDir = js ''/home/user/website'',
       findImageFile = (\<lambda>imagePath baseDir filePathStem. None),
       basename_noext = basename_without_extension \<rparr>"

text \<open>A content tree in which every image asked for lies directly under the root.\<close>

definition gallery_parser :: parser where
  "gallery_parser =
     \<lparr> opts = \<lparr> resolvingFns = Some [js ''default'', js ''default-embed''],
                stubUrl = Some (js ''/stubs/'') \<rparr>,
       inputDir = js ''/home/user/website'',
       findImageFile = (\<lambda>imagePath baseDir filePathStem.
          Some \<lparr> img_exists = True, img_href = js ''/'' @ imagePath,
                 fullPath = baseDir @ js ''/'' @ imagePath \<rparr>),
       basename_noext = basename_without_extension \<rparr>"

text \<open>
  The token of the test \<open>regex does match special ASCII\<close>, with the heart sign U+2661
  at both ends and two apostrophes (unit 39) in the middle.
\<close>

definition heart_token :: jsstring where
  "heart_token =
     [91, 91, 9825, 32] @ js ''cinni'' @ [39, 39] @ js ''s dream home '' @ [9825, 93, 93]"

definition no_pages :: pageDirectory where
  "no_pages m = \<lparr> res_page = None, found = False, foundByAlias = False \<rparr>"

definition empty_state :: state where
  "empty_state = \<lparr> heap = [], linkCache = Map.empty, deadLinks = {} \<rparr>"

section \<open>Evaluating the string functions\<close>

declare split.simps [simp del]

lemma split_Nil: "split sep [] = [[]]"
  by (simp add: split.simps)

lemma split_Cons:
  "split sep (c # cs) =
     (if c = sep then [] # split sep cs
      else (case split sep cs of p # ps \<Rightarrow> (c # p) # ps))"
proof (cases "c = sep")
  case True
  then show ?thesis by (simp add: split.simps[of sep "sep # cs"])
next
  case False
  show ?thesis
  proof (cases "dropWhile (\<lambda>c. c \<noteq> sep) cs")
    case Nil
    then show ?thesis using False
      by (simp add: split.simps[of sep "c # cs"] split.simps[of sep cs]
          del: dropWhile_eq_Nil_conv)
  next
    case (Cons a r)
    then show ?thesis using False
      by (simp add: split.simps[of sep "c # cs"] split.simps[of sep cs]
          del: dropWhile_eq_Nil_conv)
  qed
qed

lemma split_hd: "split sep s ! 0 = takeWhile (\<lambda>c. c \<noteq> sep) s"
  by (subst split.simps) (auto split: list.splits simp: takeWhile_eq_all_conv[THEN iffD2])

lemma split_length_one:
  assumes "sep \<notin> set s"
  shows "split sep s = [s]"
proof -
  have "dropWhile (\<lambda>c. c \<noteq> sep) s = []" using assms by auto
  then show ?thesis
    by (simp add: split.simps[of sep s] del: dropWhile_eq_Nil_conv)
qed

lemma split_second:
  "sep \<in> set s \<Longrightarrow>
   split sep s = takeWhile (\<lambda>c. c \<noteq> sep) s # split sep (tl (dropWhile (\<lambda>c. c \<noteq> sep) s))"
  by (subst split.simps) (auto split: list.splits)

lemma str_includes_unit: "str_includes s [c] = (c \<in> set s)"
  by (induction s) (auto simp: startsWith_def)

lemmas str_defs = ch_def js_def isLineTerminator_def isWhiteSpace_def isSpace_def trim_def
  startsWith_def endsWith_def at_last_def slice_to_end_def split_Nil split_Cons
  lower_unit_def toLowerCase_def canonicalize_def md_tail_def md_match_def

lemmas stage_defs = title_split_def parts_def anchor_identification_def
  path_identification_def custom_resolving_fn_def interpret_link_def falsy_def
  isImageFile_def

lemmas setting_defs = test_parser_def custom_parser_def gallery_parser_def no_pages_def
  empty_state_def

section \<open>What the steps keep\<close>

lemma title_split_fields:
  "link (title_split tok) = tok"
  "isEmbed (title_split tok) = startsWith tok (js ''!'')"
  "isImage (title_split tok) = False"
  "href (title_split tok) = None"
  "anchor (title_split tok) = None"
  "resolvingFnName (title_split tok) =
     (if startsWith tok (js ''!'') then js ''default-embed'' else js ''default'')"
  by (simp_all add: title_split_def)

lemma anchor_identification_fields:
  "link (anchor_identification tok m) = link m"
  "isEmbed (anchor_identification tok m) = isEmbed m"
  "isImage (anchor_identification tok m) = isImage m"
  "href (anchor_identification tok m) = href m"
  "resolvingFnName (anchor_identification tok m) = resolvingFnName m"
  by (simp_all add: anchor_identification_def Let_def)

lemma path_identification_fields:
  assumes "path_identification fps m = Inr m'"
  shows "link m' = link m" "isEmbed m' = isEmbed m" "isImage m' = isImage m"
    "href m' = href m" "resolvingFnName m' = resolvingFnName m" "anchor m' = anchor m"
  using assms by (auto simp: path_identification_def Let_def split: if_splits)

lemma custom_resolving_fn_fields:
  assumes "custom_resolving_fn os pd tok fps m = Inr m'"
  shows "link m' = link m" "isEmbed m' = isEmbed m" "isImage m' = isImage m"
    "href m' = href m" "anchor m' = anchor m"
  using assms by (auto simp: custom_resolving_fn_def Let_def split: if_splits)

lemma interpret_link_fields:
  assumes "interpret_link this pd tok fps = Inr m"
  shows "link m = tok" "isEmbed m = startsWith tok (js ''!'')" "isImage m = False"
    "href m = None"
proof -
  obtain m5 where m5: "path_identification fps (anchor_identification tok (title_split tok)) = Inr m5"
    and m: "custom_resolving_fn (opts this) pd tok fps m5 = Inr m"
    using assms by (auto simp: interpret_link_def split: sum.splits)
  show "link m = tok" "isEmbed m = startsWith tok (js ''!'')" "isImage m = False"
    "href m = None"
    using custom_resolving_fn_fields[OF m] path_identification_fields[OF m5]
    by (simp_all add: anchor_identification_fields title_split_fields)
qed

lemma parseSingle_hit: "linkCache st tok = Some r \<Longrightarrow> parseSingle this pd st tok fps = (Inr r, st)"
  by (simp add: parseSingle_def)

lemma parseSingle_miss_error:
  "linkCache st tok = None \<Longrightarrow> interpret_link this pd tok fps = Inl e \<Longrightarrow>
   parseSingle this pd st tok fps = (Inl e, st)"
  by (simp add: parseSingle_def)

lemma parseSingle_miss_ok:
  "linkCache st tok = None \<Longrightarrow> interpret_link this pd tok fps = Inr m \<Longrightarrow>
   \<exists>st'. parseSingle this pd st tok fps = (Inr (length (heap st)), st') \<and>
     heap st' = heap st @ [fst (page_lookup this pd tok (fst (image_embed this tok fps m (deadLinks st)))
                               (snd (image_embed this tok fps m (deadLinks st))))] \<and>
     linkCache st' = (linkCache st)(tok \<mapsto> length (heap st)) \<and>
     deadLinks st' = snd (page_lookup this pd tok (fst (image_embed this tok fps m (deadLinks st)))
                               (snd (image_embed this tok fps m (deadLinks st))))"
  by (simp add: parseSingle_def Let_def split: prod.splits)

lemma interpret_link_errors:
  "interpret_link this pd tok fps = Inl e \<Longrightarrow>
   e = MissingContextError \<or> (\<exists>p. e = UnresolvedResolverError p tok fps)"
  by (auto simp: interpret_link_def path_identification_def custom_resolving_fn_def Let_def
      split: sum.splits if_splits)

lemma custom_resolving_fn_not_missing:
  "custom_resolving_fn os pd tok fps m \<noteq> Inl MissingContextError"
  by (auto simp: custom_resolving_fn_def Let_def)

lemma startsWith_append: "startsWith s (p @ q) \<Longrightarrow> startsWith s p"
proof -
  assume "startsWith s (p @ q)"
  then have "take (length p) (take (length (p @ q)) s) = take (length p) (p @ q)"
    by (simp only: startsWith_def)
  then show ?thesis by (simp add: startsWith_def min_def)
qed

lemma relative_starts_with_dot:
  "startsWith s (js ''../'') \<or> startsWith s (js ''./'') \<Longrightarrow> startsWith s (js ''.'')"
  using startsWith_append[of s "js ''.''" "js ''./''"] startsWith_append[of s "js ''.''" "js ''/''"]
  by (auto simp: js_def)

lemma absolute_not_relative:
  "startsWith s (js ''/'') \<Longrightarrow> \<not> startsWith s (js ''.'')"
  by (auto simp: str_defs)

lemma path_identification_missing:
  "(path_identification fps m = Inl e) =
   (e = MissingContextError \<and> (startsWith (name m) (js ''../'') \<or> startsWith (name m) (js ''./''))
      \<and> falsy fps)"
  using relative_starts_with_dot[of "name m"] absolute_not_relative[of "name m"]
  by (auto simp: path_identification_def Let_def)

lemma interpret_link_missing:
  "(interpret_link this pd tok fps = Inl MissingContextError) =
   ((startsWith (working_name tok) (js ''./'') \<or> startsWith (working_name tok) (js ''../''))
      \<and> falsy fps)"
proof (cases "path_identification fps (anchor_identification tok (title_split tok))")
  case (Inl e)
  then show ?thesis
    using path_identification_missing[of fps "anchor_identification tok (title_split tok)" e]
    by (auto simp: interpret_link_def working_name_def)
next
  case (Inr m)
  then show ?thesis
    using path_identification_missing[of fps "anchor_identification tok (title_split tok)" MissingContextError]
    by (auto simp: interpret_link_def working_name_def custom_resolving_fn_not_missing)
qed

lemma parseSingle_error_state:
  assumes "parseSingle this pd st tok fps = (Inl e, st')"
  shows "st' = st \<and> (e = MissingContextError \<or> (\<exists>p. e = UnresolvedResolverError p tok fps))"
proof (cases "linkCache st tok")
  case (Some r)
  then show ?thesis using assms by (simp add: parseSingle_hit)
next
  case None
  show ?thesis
  proof (cases "interpret_link this pd tok fps")
    case (Inl e')
    then show ?thesis
      using assms None interpret_link_errors[OF Inl] by (auto simp: parseSingle_miss_error)
  next
    case (Inr m)
    then show ?thesis
      using assms parseSingle_miss_ok[OF None Inr] by auto
  qed
qed

text \<open>
  C10. When \<open>parseSingle\<close> throws, the link cache and the dead-link set (and the stored
  records) are as they were before the call, and the error is one of the two the
  interpreter raises: the missing referencing path or the unresolved resolver prefix.
\<close>

theorem parseSingle_error_keeps_tables:
  assumes "parseSingle this pd st tok fps = (Inl e, st')"
  shows "linkCache st' = linkCache st \<and> deadLinks st' = deadLinks st \<and> heap st' = heap st \<and>
         (e = MissingContextError \<or> (\<exists>p. e = UnresolvedResolverError p tok fps))"
  using parseSingle_error_state[OF assms] by simp

lemma interpret_fail:
  "interpret_link test_parser no_pages (js ''[[fail:1234]]'') (Some (js ''/directory/filename''))
     = Inl (UnresolvedResolverError (js ''fail'') (js ''[[fail:1234]]'')
             (Some (js ''/directory/filename'')))"
  by (simp add: stage_defs setting_defs str_includes_unit str_defs)

theorem parseSingle_error_keeps_tables_witness:
  "fst (parseSingle test_parser no_pages empty_state (js ''[[fail:1234]]'')
          (Some (js ''/directory/filename'')))
     = Inl (UnresolvedResolverError (js ''fail'') (js ''[[fail:1234]]'')
             (Some (js ''/directory/filename''))) \<and>
   linkCache (snd (parseSingle test_parser no_pages empty_state (js ''[[fail:1234]]'')
          (Some (js ''/directory/filename'')))) = linkCache empty_state \<and>
   deadLinks (snd (parseSingle test_parser no_pages empty_state (js ''[[fail:1234]]'')
          (Some (js ''/directory/filename'')))) = deadLinks empty_state"
proof -
  have "linkCache empty_state (js ''[[fail:1234]]'') = None" by (simp add: empty_state_def)
  from parseSingle_miss_error[OF this interpret_fail]
  have e1: "fst (parseSingle test_parser no_pages empty_state (js ''[[fail:1234]]'')
          (Some (js ''/directory/filename'')))
     = Inl (UnresolvedResolverError (js ''fail'') (js ''[[fail:1234]]'')
             (Some (js ''/directory/filename'')))"
    by simp
  then have e: "parseSingle test_parser no_pages empty_state (js ''[[fail:1234]]'')
          (Some (js ''/directory/filename''))
     = (Inl (UnresolvedResolverError (js ''fail'') (js ''[[fail:1234]]'')
             (Some (js ''/directory/filename''))),
        snd (parseSingle test_parser no_pages empty_state (js ''[[fail:1234]]'')
          (Some (js ''/directory/filename''))))"
    by (metis prod.collapse)
  from parseSingle_error_keeps_tables[OF e] e1 show ?thesis by simp
qed

lemma working_name_hidden: "working_name (js ''[[.hidden]]'') = js ''.hidden''"
  by (simp add: working_name_def stage_defs str_defs)

lemma working_name_rel: "working_name (js ''[[../a-blog-post.md]]'') = js ''../a-blog-post''"
  by (simp add: working_name_def stage_defs str_defs)

lemma working_name_abs: "working_name (js ''[[/blog/a-blog-post.md]]'') = js ''/blog/a-blog-post''"
  by (simp add: working_name_def stage_defs str_defs)

lemma interpret_hidden:
  "interpret_link this pd (js ''[[.hidden]]'') fps =
     Inr ((title_split (js ''[[.hidden]]''))\<lparr> name := js ''.hidden'' \<rparr>)"
  by (simp add: stage_defs str_defs)

text \<open>
  C7, as stated, fails: the working name of \<open>[[.hidden]]\<close> starts with a dot, and without a
  referencing path the call returns a record.
\<close>

theorem dot_name_without_context_counterexample:
  "startsWith (working_name (js ''[[.hidden]]'')) (js ''.'') \<and>
   fst (parseSingle test_parser no_pages empty_state (js ''[[.hidden]]'') None) = Inr 0"
proof -
  have "linkCache empty_state (js ''[[.hidden]]'') = None" by (simp add: empty_state_def)
  from parseSingle_miss_ok[OF this interpret_hidden, of test_parser no_pages None]
  have "fst (parseSingle test_parser no_pages empty_state (js ''[[.hidden]]'') None) = Inr 0"
    by (auto simp: empty_state_def)
  moreover have "startsWith (working_name (js ''[[.hidden]]'')) (js ''.'')"
    by (simp add: working_name_hidden) (simp add: str_defs)
  ultimately show ?thesis by simp
qed

text \<open>
  C7, amended. \<open>parseSingle\<close> fails with the missing-context error exactly when the token
  is not cached, its working name starts with \<open>./\<close> or \<open>../\<close> and the referencing path
  is absent (or empty); the tables are then unchanged. A token whose working name starts
  with \<open>/\<close> never fails so, whatever the referencing path.
\<close>

theorem parseSingle_missing_context:
  "((fst (parseSingle this pd st tok fps) = Inl MissingContextError) =
     (linkCache st tok = None \<and>
      (startsWith (working_name tok) (js ''./'') \<or> startsWith (working_name tok) (js ''../'')) \<and>
      falsy fps)) \<and>
   (fst (parseSingle this pd st tok fps) = Inl MissingContextError \<longrightarrow>
      snd (parseSingle this pd st tok fps) = st) \<and>
   (startsWith (working_name tok') (js ''/'') \<longrightarrow>
      fst (parseSingle this' pd' st' tok' fps') \<noteq> Inl MissingContextError)"
proof (intro conjI impI)
  show "(fst (parseSingle this pd st tok fps) = Inl MissingContextError) =
     (linkCache st tok = None \<and>
      (startsWith (working_name tok) (js ''./'') \<or> startsWith (working_name tok) (js ''../'')) \<and>
      falsy fps)" for this pd st tok fps
  proof (cases "linkCache st tok")
    case (Some r)
    then show ?thesis by (simp add: parseSingle_hit)
  next
    case None
    show ?thesis
    proof (cases "interpret_link this pd tok fps")
      case (Inl e)
      then show ?thesis
        using None interpret_link_missing[of this pd tok fps]
        by (auto simp: parseSingle_miss_error)
    next
      case (Inr m)
      then show ?thesis
        using parseSingle_miss_ok[OF None Inr] interpret_link_missing[of this pd tok fps]
        by auto
    qed
  qed
  note iff = this
  show "snd (parseSingle this pd st tok fps) = st"
    if "fst (parseSingle this pd st tok fps) = Inl MissingContextError"
    using that parseSingle_error_state[of this pd st tok fps MissingContextError
        "snd (parseSingle this pd st tok fps)"]
    by (cases "parseSingle this pd st tok fps") auto
  show "fst (parseSingle this' pd' st' tok' fps') \<noteq> Inl MissingContextError"
    if "startsWith (working_name tok') (js ''/'')"
    using that iff[of this' pd' st' tok' fps'] relative_starts_with_dot[of "working_name tok'"]
      absolute_not_relative[of "working_name tok'"]
    by auto
qed

theorem parseSingle_missing_context_witness:
  "fst (parseSingle test_parser no_pages empty_state (js ''[[../a-blog-post.md]]'') None)
     = Inl MissingContextError \<and>
   snd (parseSingle test_parser no_pages empty_state (js ''[[../a-blog-post.md]]'') None)
     = empty_state \<and>
   startsWith (working_name (js ''[[/blog/a-blog-post.md]]'')) (js ''/'') \<and>
   fst (parseSingle test_parser no_pages empty_state (js ''[[/blog/a-blog-post.md]]'') None)
     \<noteq> Inl MissingContextError"
proof -
  have a: "linkCache empty_state (js ''[[../a-blog-post.md]]'') = None"
    by (simp add: empty_state_def)
  have b: "startsWith (working_name (js ''[[../a-blog-post.md]]'')) (js ''../'')"
    by (simp add: working_name_rel) (simp add: str_defs)
  have c: "startsWith (working_name (js ''[[/blog/a-blog-post.md]]'')) (js ''/'')"
    by (simp add: working_name_abs) (simp add: str_defs)
  have d: "falsy None" by (simp add: falsy_def)
  show ?thesis
    using parseSingle_missing_context[of test_parser no_pages empty_state
        "js ''[[../a-blog-post.md]]''" None "js ''[[/blog/a-blog-post.md]]''"
        test_parser no_pages empty_state None] a b c d
    by simp
qed

section \<open>The two lookups\<close>

lemma image_embed_skip:
  "\<not> (isEmbed m \<and> isImageFile (name m)) \<Longrightarrow> image_embed this tok fps m dead = (m, dead)"
  by (auto simp: image_embed_def)

lemma image_embed_fields:
  "name (fst (image_embed this tok fps m dead)) = name m"
  "isEmbed (fst (image_embed this tok fps m dead)) = isEmbed m"
  "anchor (fst (image_embed this tok fps m dead)) = anchor m"
  "isPath (fst (image_embed this tok fps m dead)) = isPath m"
  "isImage (fst (image_embed this tok fps m dead)) = (isImage m \<or> isEmbed m \<and> isImageFile (name m))"
  by (auto simp: image_embed_def Let_def split: option.splits)

lemma page_lookup_image:
  "isImage m \<Longrightarrow> page_lookup this pd tok m dead = (m, dead)"
  by (simp add: page_lookup_def)

lemma page_lookup_fields:
  "name (fst (page_lookup this pd tok m dead)) = name m"
  "isEmbed (fst (page_lookup this pd tok m dead)) = isEmbed m"
  "anchor (fst (page_lookup this pd tok m dead)) = anchor m"
  "isPath (fst (page_lookup this pd tok m dead)) = isPath m"
  "isImage (fst (page_lookup this pd tok m dead)) = isImage m"
  by (auto simp: page_lookup_def split: option.splits)

lemma returned_miss:
  assumes "linkCache st tok = None" and "interpret_link this pd tok fps = Inr m"
  shows "returned (parseSingle this pd st tok fps) =
           Inr (fst (page_lookup this pd tok (fst (image_embed this tok fps m (deadLinks st)))
                               (snd (image_embed this tok fps m (deadLinks st)))))"
    and "deadLinks (snd (parseSingle this pd st tok fps)) =
           snd (page_lookup this pd tok (fst (image_embed this tok fps m (deadLinks st)))
                               (snd (image_embed this tok fps m (deadLinks st))))"
    and "fst (parseSingle this pd st tok fps) = Inr (length (heap st))"
proof -
  obtain st' where p: "parseSingle this pd st tok fps = (Inr (length (heap st)), st')"
    and h: "heap st' = heap st @ [fst (page_lookup this pd tok
                (fst (image_embed this tok fps m (deadLinks st)))
                (snd (image_embed this tok fps m (deadLinks st))))]"
    and d: "deadLinks st' = snd (page_lookup this pd tok
                (fst (image_embed this tok fps m (deadLinks st)))
                (snd (image_embed this tok fps m (deadLinks st))))"
    using parseSingle_miss_ok[OF assms] by blast
  show "returned (parseSingle this pd st tok fps) =
           Inr (fst (page_lookup this pd tok (fst (image_embed this tok fps m (deadLinks st)))
                               (snd (image_embed this tok fps m (deadLinks st)))))"
    by (simp add: p returned_def h)
  show "deadLinks (snd (parseSingle this pd st tok fps)) =
           snd (page_lookup this pd tok (fst (image_embed this tok fps m (deadLinks st)))
                               (snd (image_embed this tok fps m (deadLinks st))))"
    by (simp add: p d)
  show "fst (parseSingle this pd st tok fps) = Inr (length (heap st))"
    by (simp add: p)
qed

lemma interpret_photo:
  "interpret_link this pd (js ''[[photo.JPG]]'') fps =
     Inr ((title_split (js ''[[photo.JPG]]''))\<lparr> name := js ''photo.JPG'' \<rparr>)"
  by (simp add: stage_defs str_defs)

lemma interpret_document:
  "interpret_link this pd (js ''[[document.pdf]]'') fps =
     Inr ((title_split (js ''[[document.pdf]]''))\<lparr> name := js ''document.pdf'' \<rparr>)"
  by (simp add: stage_defs str_defs)

lemma interpret_image:
  "interpret_link this pd (js ''![[image.png]]'') fps =
     Inr ((title_split (js ''![[image.png]]''))\<lparr> name := js ''image.png'' \<rparr>)"
  by (simp add: stage_defs str_defs)

lemma isImageFile_examples:
  "isImageFile (js ''photo.JPG'')" "isImageFile (js ''image.png'')"
  "\<not> isImageFile (js ''document.pdf'')"
  by (simp_all add: isImageFile_def str_defs)

lemma not_embed_examples:
  "\<not> startsWith (js ''[[photo.JPG]]'') (js ''!'')"
  "\<not> startsWith (js ''[[document.pdf]]'') (js ''!'')"
  "startsWith (js ''![[image.png]]'') (js ''!'')"
  by (simp_all add: str_defs)

text \<open>
  C1. The plain link \<open>[[photo.JPG]]\<close> has an image extension, and the record
  \<open>parseSingle\<close> returns for it has \<open>isImage = false\<close> and the strategy \<open>default\<close>:
  the image step is entered for embeds only. The embed \<open>![[image.png]]\<close> yields
  \<open>isImage = true\<close> and \<open>[[document.pdf]]\<close> yields \<open>isImage = false\<close>.
\<close>

theorem parseSingle_plain_image_link:
  "(linkCache st (js ''[[photo.JPG]]'') = None \<longrightarrow>
      (\<exists>m. returned (parseSingle this pd st (js ''[[photo.JPG]]'') fps) = Inr m \<and>
           name m = js ''photo.JPG'' \<and> isImageFile (name m) \<and> \<not> isImage m \<and>
           resolvingFnName m = js ''default'')) \<and>
   (linkCache st (js ''![[image.png]]'') = None \<longrightarrow>
      (\<exists>m. returned (parseSingle this pd st (js ''![[image.png]]'') fps) = Inr m \<and>
           name m = js ''image.png'' \<and> isImage m)) \<and>
   (linkCache st (js ''[[document.pdf]]'') = None \<longrightarrow>
      (\<exists>m. returned (parseSingle this pd st (js ''[[document.pdf]]'') fps) = Inr m \<and>
           name m = js ''document.pdf'' \<and> \<not> isImage m))"
proof (intro conjI impI)
  assume miss: "linkCache st (js ''[[photo.JPG]]'') = None"
  let ?m = "(title_split (js ''[[photo.JPG]]''))\<lparr> name := js ''photo.JPG'' \<rparr>"
  have skip: "image_embed this (js ''[[photo.JPG]]'') fps ?m (deadLinks st) = (?m, deadLinks st)"
    by (rule image_embed_skip) (simp add: title_split_fields not_embed_examples)
  have "resolvingFnName (fst (page_lookup this pd (js ''[[photo.JPG]]'') ?m (deadLinks st)))
          = js ''default''"
    by (auto simp: page_lookup_def title_split_fields not_embed_examples split: option.splits)
  then show "\<exists>m. returned (parseSingle this pd st (js ''[[photo.JPG]]'') fps) = Inr m \<and>
           name m = js ''photo.JPG'' \<and> isImageFile (name m) \<and> \<not> isImage m \<and>
           resolvingFnName m = js ''default''"
    using returned_miss(1)[OF miss interpret_photo, of this pd fps]
    by (simp add: skip page_lookup_fields title_split_fields isImageFile_examples)
next
  assume miss: "linkCache st (js ''![[image.png]]'') = None"
  show "\<exists>m. returned (parseSingle this pd st (js ''![[image.png]]'') fps) = Inr m \<and>
           name m = js ''image.png'' \<and> isImage m"
    using returned_miss(1)[OF miss interpret_image, of this pd fps]
    by (simp add: page_lookup_fields image_embed_fields title_split_fields
        isImageFile_examples not_embed_examples)
next
  assume miss: "linkCache st (js ''[[document.pdf]]'') = None"
  show "\<exists>m. returned (parseSingle this pd st (js ''[[document.pdf]]'') fps) = Inr m \<and>
           name m = js ''document.pdf'' \<and> \<not> isImage m"
    using returned_miss(1)[OF miss interpret_document, of this pd fps]
    by (simp add: page_lookup_fields image_embed_fields title_split_fields
        isImageFile_examples not_embed_examples)
qed

theorem parseSingle_plain_image_link_witness:
  "(\<exists>m. returned (parseSingle test_parser no_pages empty_state (js ''[[photo.JPG]]'') None) = Inr m \<and>
        name m = js ''photo.JPG'' \<and> isImageFile (name m) \<and> \<not> isImage m \<and>
        resolvingFnName m = js ''default'') \<and>
   (\<exists>m. returned (parseSingle test_parser no_pages empty_state (js ''![[image.png]]'') None) = Inr m \<and>
        name m = js ''image.png'' \<and> isImage m) \<and>
   (\<exists>m. returned (parseSingle test_parser no_pages empty_state (js ''[[document.pdf]]'') None) = Inr m \<and>
        name m = js ''document.pdf'' \<and> \<not> isImage m)"
  using parseSingle_plain_image_link[of empty_state test_parser no_pages None]
  by (simp add: empty_state_def)

section \<open>Custom resolver prefixes\<close>

lemma split_first_trimmed:
  "map trim (split sep s) ! 0 = trim (takeWhile (\<lambda>c. c \<noteq> sep) s)"
proof -
  have "split sep s \<noteq> []" by (subst split.simps) (simp split: list.splits)
  then have "map trim (split sep s) ! 0 = trim (split sep s ! 0)"
    by (cases "split sep s") simp_all
  then show ?thesis by (simp add: split_hd)
qed





section \<open>The dead-link fallback\<close>

lemma page_lookup_miss:
  assumes "\<not> isImage m" and "res_page (pd m) = None"
  shows "page_lookup this pd tok m dead =
           (if resolvingFnName m = js ''default'' \<or> resolvingFnName m = js ''default-embed''
            then (m\<lparr> href := stubUrl (opts this),
                     resolvingFnName := (if startsWith tok (js ''!'') then js ''404-embed''
                                         else resolvingFnName m) \<rparr>,
                  insert tok dead)
            else (m, dead))"
  using assms by (simp add: page_lookup_def)

text \<open>
  C2. Let the token be uncached and let \<open>m\<close> be the record the interpreter has built
  when the lookups start. If \<open>m\<close> is not an image and the page index has no page for
  it, then: when its strategy is \<open>default\<close> or \<open>default-embed\<close>, the token is added to
  the dead-link set, \<open>href\<close> is the stub URL and the strategy becomes \<open>404-embed\<close> for
  an embed and stays for a plain link; when the strategy is a custom one, the dead-link
  set is unchanged, \<open>href\<close> stays unset and the strategy stays. For an image the record
  and the dead-link set are those of the image step, whatever the page index answers.
\<close>

theorem parseSingle_dead_link_fallback:
  assumes "linkCache st tok = None"
    and "interpret_link this pd tok fps = Inr m"
  shows "(\<not> (isEmbed m \<and> isImageFile (name m)) \<and> res_page (pd m) = None \<longrightarrow>
           (\<exists>m'. returned (parseSingle this pd st tok fps) = Inr m' \<and>
              (if resolvingFnName m = js ''default'' \<or> resolvingFnName m = js ''default-embed''
               then deadLinks (snd (parseSingle this pd st tok fps)) = insert tok (deadLinks st) \<and>
                    href m' = stubUrl (opts this) \<and>
                    resolvingFnName m' =
                      (if isEmbed m then js ''404-embed'' else resolvingFnName m)
               else deadLinks (snd (parseSingle this pd st tok fps)) = deadLinks st \<and>
                    href m' = None \<and> resolvingFnName m' = resolvingFnName m))) \<and>
         (isEmbed m \<and> isImageFile (name m) \<longrightarrow>
            (returned (parseSingle this pd st tok fps),
             deadLinks (snd (parseSingle this pd st tok fps)))
              = (Inr (fst (image_embed this tok fps m (deadLinks st))),
                 snd (image_embed this tok fps m (deadLinks st))))"
proof (intro conjI impI)
  assume h: "\<not> (isEmbed m \<and> isImageFile (name m)) \<and> res_page (pd m) = None"
  have f: "isImage m = False" "href m = None" "isEmbed m = startsWith tok (js ''!'')"
    using interpret_link_fields[OF assms(2)] by simp_all
  have skip: "image_embed this tok fps m (deadLinks st) = (m, deadLinks st)"
    using h by (intro image_embed_skip) simp
  have pl: "page_lookup this pd tok m (deadLinks st) =
           (if resolvingFnName m = js ''default'' \<or> resolvingFnName m = js ''default-embed''
            then (m\<lparr> href := stubUrl (opts this),
                     resolvingFnName := (if startsWith tok (js ''!'') then js ''404-embed''
                                         else resolvingFnName m) \<rparr>,
                  insert tok (deadLinks st))
            else (m, deadLinks st))"
    using h f by (intro page_lookup_miss) simp_all
  show "\<exists>m'. returned (parseSingle this pd st tok fps) = Inr m' \<and>
              (if resolvingFnName m = js ''default'' \<or> resolvingFnName m = js ''default-embed''
               then deadLinks (snd (parseSingle this pd st tok fps)) = insert tok (deadLinks st) \<and>
                    href m' = stubUrl (opts this) \<and>
                    resolvingFnName m' =
                      (if isEmbed m then js ''404-embed'' else resolvingFnName m)
               else deadLinks (snd (parseSingle this pd st tok fps)) = deadLinks st \<and>
                    href m' = None \<and> resolvingFnName m' = resolvingFnName m)"
    using returned_miss(1,2)[OF assms]
    by (simp add: skip pl f)
next
  assume h: "isEmbed m \<and> isImageFile (name m)"
  then have "isImage (fst (image_embed this tok fps m (deadLinks st)))"
    by (simp add: image_embed_fields)
  then have "page_lookup this pd tok (fst (image_embed this tok fps m (deadLinks st)))
               (snd (image_embed this tok fps m (deadLinks st)))
             = image_embed this tok fps m (deadLinks st)"
    by (simp add: page_lookup_image)
  then show "(returned (parseSingle this pd st tok fps),
             deadLinks (snd (parseSingle this pd st tok fps)))
              = (Inr (fst (image_embed this tok fps m (deadLinks st))),
                 snd (image_embed this tok fps m (deadLinks st)))"
    using returned_miss(1,2)[OF assms] by simp
qed

lemma interpret_invalid:
  "interpret_link this pd (js ''[[invalid]]'') fps =
     Inr ((title_split (js ''[[invalid]]''))\<lparr> name := js ''invalid'' \<rparr>)"
  by (simp add: stage_defs str_defs)

lemma interpret_custom:
  "interpret_link custom_parser pd (js ''[[test:1234]]'') fps =
     Inr ((title_split (js ''[[test:1234]]''))
            \<lparr> name := js ''1234'', resolvingFnName := js ''test'' \<rparr>)"
  by (simp add: stage_defs custom_parser_def str_includes_unit str_defs)

theorem parseSingle_dead_link_fallback_witness:
  "(\<exists>m'. returned (parseSingle test_parser no_pages empty_state (js ''[[invalid]]'') None) = Inr m' \<and>
      deadLinks (snd (parseSingle test_parser no_pages empty_state (js ''[[invalid]]'') None))
        = {js ''[[invalid]]''} \<and>
      href m' = Some (js ''/stubs/'') \<and> resolvingFnName m' = js ''default'') \<and>
   (\<exists>m'. returned (parseSingle custom_parser no_pages empty_state (js ''[[test:1234]]'') None) = Inr m' \<and>
      deadLinks (snd (parseSingle custom_parser no_pages empty_state (js ''[[test:1234]]'') None))
        = {} \<and>
      href m' = None \<and> resolvingFnName m' = js ''test'') \<and>
   (\<exists>m'. returned (parseSingle gallery_parser no_pages empty_state (js ''![[image.png]]'') None) = Inr m' \<and>
      deadLinks (snd (parseSingle gallery_parser no_pages empty_state (js ''![[image.png]]'') None))
        = {} \<and>
      href m' = Some (js ''/image.png'') \<and> resolvingFnName m' = js ''image-embed'')"
proof (intro conjI)
  have a: "linkCache empty_state (js ''[[invalid]]'') = None" by (simp add: empty_state_def)
  have b: "\<not> startsWith (js ''[[invalid]]'') (js ''!'')" by (simp add: str_defs)
  show "\<exists>m'. returned (parseSingle test_parser no_pages empty_state (js ''[[invalid]]'') None) = Inr m' \<and>
      deadLinks (snd (parseSingle test_parser no_pages empty_state (js ''[[invalid]]'') None))
        = {js ''[[invalid]]''} \<and>
      href m' = Some (js ''/stubs/'') \<and> resolvingFnName m' = js ''default''"
    using parseSingle_dead_link_fallback[OF a interpret_invalid[of test_parser no_pages None]] b
    by (simp add: title_split_fields no_pages_def empty_state_def test_parser_def)
next
  have a: "linkCache empty_state (js ''[[test:1234]]'') = None" by (simp add: empty_state_def)
  have b: "\<not> startsWith (js ''[[test:1234]]'') (js ''!'')" by (simp add: str_defs)
  have c: "js ''test'' \<noteq> js ''default''" "js ''test'' \<noteq> js ''default-embed''"
    by (simp_all add: str_defs)
  show "\<exists>m'. returned (parseSingle custom_parser no_pages empty_state (js ''[[test:1234]]'') None) = Inr m' \<and>
      deadLinks (snd (parseSingle custom_parser no_pages empty_state (js ''[[test:1234]]'') None))
        = {} \<and>
      href m' = None \<and> resolvingFnName m' = js ''test''"
    using parseSingle_dead_link_fallback[OF a interpret_custom[of no_pages None]] b c
    by (simp add: title_split_fields no_pages_def empty_state_def)
next
  have a: "linkCache empty_state (js ''![[image.png]]'') = None" by (simp add: empty_state_def)
  have b: "startsWith (js ''![[image.png]]'') (js ''!'')" by (simp add: str_defs)
  have c: "image_embed gallery_parser (js ''![[image.png]]'') None
             ((title_split (js ''![[image.png]]''))\<lparr> name := js ''image.png'' \<rparr>) {}
           = ((title_split (js ''![[image.png]]''))
                \<lparr> name := js ''image.png'', isImage := True, resolvingFnName := js ''image-embed'',
                   exists := True, href := Some (js ''/image.png''),
                   path := Some (js ''/home/user/website/image.png''),
                   title := Some (js ''image'') \<rparr>, {})"
    by (simp add: image_embed_def gallery_parser_def basename_without_extension_def
        stage_defs str_defs)
  show "\<exists>m'. returned (parseSingle gallery_parser no_pages empty_state (js ''![[image.png]]'') None) = Inr m' \<and>
      deadLinks (snd (parseSingle gallery_parser no_pages empty_state (js ''![[image.png]]'') None))
        = {} \<and>
      href m' = Some (js ''/image.png'') \<and> resolvingFnName m' = js ''image-embed''"
    using parseSingle_dead_link_fallback[OF a interpret_image[of gallery_parser no_pages None]] b
    by (simp add: title_split_fields isImageFile_examples empty_state_def c)
qed

section \<open>Relative paths\<close>







lemma custom_resolving_fn_no_colon:
  "\<not> str_includes (name m) (js '':'') \<Longrightarrow> custom_resolving_fn os pd tok fps m = Inr m"
  by (simp add: custom_resolving_fn_def)



text \<open>
  A \<open>..\<close> segment counts as a step back wherever it stands in the reference. From
  \<open>/x/y/page\<close> the reference \<open>./a/../b\<close> loses the directory \<open>y\<close> and keeps \<open>a\<close>;
  the specification, which counts the leading segments, keeps both.
\<close>

lemma relative_inner_step:
  "path_identification (Some (js ''/x/y/page''))
       (anchor_identification (js ''[[./a/../b]]'') (title_split (js ''[[./a/../b]]'')))
     = Inr ((anchor_identification (js ''[[./a/../b]]'') (title_split (js ''[[./a/../b]]'')))
              \<lparr> isPath := True, name := js ''/x/a/b'' \<rparr>)"
  "resolve_relative (js ''/x/y/page'') (working_name (js ''[[./a/../b]]'')) = js ''/x/y/a/b''"
  by (simp_all add: resolve_relative_def working_name_def stage_defs str_defs)





section \<open>Splitting and trimming\<close>

lemma split_length: "length (split sep s) = Suc (count_list s sep)"
proof (induction s)
  case Nil
  show ?case by (simp add: split_Nil)
next
  case (Cons c cs)
  then show ?case by (cases "split sep cs") (auto simp: split_Cons)
qed

lemma split_two:
  assumes "count_list s sep = 1"
  shows "split sep s = [takeWhile (\<lambda>c. c \<noteq> sep) s, tl (dropWhile (\<lambda>c. c \<noteq> sep) s)]"
proof -
  have in_s: "sep \<in> set s" using assms count_list_0_iff[of s sep] by auto
  let ?r = "tl (dropWhile (\<lambda>c. c \<noteq> sep) s)"
  have "length (split sep s) = 2" using assms by (simp add: split_length)
  moreover have "split sep s = takeWhile (\<lambda>c. c \<noteq> sep) s # split sep ?r"
    using in_s by (rule split_second)
  ultimately have "length (split sep ?r) = 1" by simp
  then have "count_list ?r sep = 0" by (simp add: split_length)
  then have "sep \<notin> set ?r" by (simp add: count_list_0_iff)
  then have "split sep ?r = [?r]" by (rule split_length_one)
  then show ?thesis using \<open>split sep s = takeWhile (\<lambda>c. c \<noteq> sep) s # split sep ?r\<close> by simp
qed

lemma trim_pad:
  assumes "\<forall>c \<in> set w1. isSpace c" and "\<forall>c \<in> set w2. isSpace c"
  shows "trim (w1 @ x @ w2) = trim x"
proof -
  have a: "dropWhile isSpace (w1 @ x @ w2) = dropWhile isSpace (x @ w2)"
    using assms(1) by (simp add: dropWhile_append2)
  show ?thesis
  proof (cases "\<forall>c \<in> set x. isSpace c")
    case True
    then have d: "dropWhile isSpace (x @ w2) = []" "dropWhile isSpace x = []"
      using assms(2) by auto
    show ?thesis unfolding trim_def a d by simp
  next
    case False
    then obtain c where "c \<in> set x" "\<not> isSpace c" by blast
    then have b: "dropWhile isSpace (x @ w2) = dropWhile isSpace x @ w2"
      by (simp add: dropWhile_append1)
    have c: "dropWhile isSpace (rev w2 @ rev (dropWhile isSpace x))
                   = dropWhile isSpace (rev (dropWhile isSpace x))"
      by (rule dropWhile_append2) (use assms(2) in auto)
    show ?thesis unfolding trim_def a b rev_append c by simp
  qed
qed

lemma trim_no_trailing_space: "trim x \<noteq> [] \<Longrightarrow> \<not> isSpace (last (trim x))"
proof -
  assume "trim x \<noteq> []"
  then have ne: "dropWhile isSpace (rev (dropWhile isSpace x)) \<noteq> []" by (simp add: trim_def)
  then have "\<not> isSpace (hd (dropWhile isSpace (rev (dropWhile isSpace x))))"
    by (rule hd_dropWhile)
  then show ?thesis using ne by (simp add: trim_def last_rev)
qed

section \<open>The markdown extension\<close>

lemma length_js: "length (js s) = length s"
  by (simp add: js_def)

lemma canonical_length: "map canonicalize e = js s \<Longrightarrow> length e = length s"
  by (metis length_map length_js)

lemma md_tail_iff:
  "md_tail r =
     (map canonicalize r = js ''MD'' \<or> map canonicalize r = js ''MARKDOWN'' \<or>
      (\<exists>r' w. r = r' @ [w] \<and> isSpace w \<and>
         (map canonicalize r' = js ''MD'' \<or> map canonicalize r' = js ''MARKDOWN'')))"
  (is "?L = ?R")
proof
  assume ?L
  then obtain e where e: "e = js ''MD'' \<or> e = js ''MARKDOWN''"
    and le: "length e \<le> length r" and tk: "map canonicalize (take (length e) r) = e"
    and dr: "(case drop (length e) r of [] \<Rightarrow> True | [w] \<Rightarrow> isSpace w | _ \<Rightarrow> False)"
    by (auto simp: md_tail_def)
  show ?R
  proof (cases "drop (length e) r")
    case Nil
    then have "take (length e) r = r" using le by simp
    then show ?thesis using tk e by auto
  next
    case (Cons w ws)
    then have ws: "ws = []" and sp: "isSpace w" using dr by (auto split: list.splits)
    have "r = take (length e) r @ [w]" using Cons ws append_take_drop_id[of "length e" r] by simp
    then show ?thesis using tk e sp by metis
  qed
next
  assume ?R
  then consider (a) "map canonicalize r = js ''MD''" | (b) "map canonicalize r = js ''MARKDOWN''"
    | (c) r' w where "r = r' @ [w]" "isSpace w" "map canonicalize r' = js ''MD''"
    | (d) r' w where "r = r' @ [w]" "isSpace w" "map canonicalize r' = js ''MARKDOWN''"
    by blast
  then show ?L
  proof cases
    case a
    then have "length r = 2" using length_map[of canonicalize r] by (simp add: js_def)
    then show ?thesis using a by (simp add: md_tail_def length_js)
  next
    case b
    then have "length r = 8" using length_map[of canonicalize r] by (simp add: js_def)
    then show ?thesis using b by (simp add: md_tail_def length_js)
  next
    case c
    then have "length r' = 2" using length_map[of canonicalize r'] by (simp add: js_def)
    then show ?thesis using c by (simp add: md_tail_def length_js)
  next
    case d
    then have "length r' = 8" using length_map[of canonicalize r'] by (simp add: js_def)
    then show ?thesis using d by (simp add: md_tail_def length_js)
  qed
qed

lemma space_not_letter:
  "isSpace w \<Longrightarrow> canonicalize w \<noteq> ch CHR ''D'' \<and> canonicalize w \<noteq> ch CHR ''N''"
  by (auto simp: isSpace_def isWhiteSpace_def isLineTerminator_def canonicalize_def ch_def
      split: if_splits)

lemma md_extension_last:
  assumes "map canonicalize e = js ''.MD'' \<or> map canonicalize e = js ''.MARKDOWN''"
  shows "e \<noteq> [] \<and> (canonicalize (last e) = ch CHR ''D'' \<or> canonicalize (last e) = ch CHR ''N'')"
proof -
  have ne: "e \<noteq> []" using assms by (auto simp: js_def)
  then have "canonicalize (last e) = last (map canonicalize e)" by (simp add: last_map)
  then show ?thesis using assms ne by (auto simp: js_def)
qed

lemma not_md_tail_before_extension:
  assumes "map canonicalize e = js ''.MD'' \<or> map canonicalize e = js ''.MARKDOWN''"
  shows "\<not> md_tail (q @ e)"
proof
  assume "md_tail (q @ e)"
  then consider (a) "map canonicalize (q @ e) = js ''MD''"
    | (b) "map canonicalize (q @ e) = js ''MARKDOWN''"
    | (c) r' w where "q @ e = r' @ [w]" "isSpace w"
    unfolding md_tail_iff by blast
  then show False
  proof cases
    case a
    then have "length q + length e = 2" using canonical_length[of "q @ e" "''MD''"] by simp
    moreover have "length e = 3 \<or> length e = 9"
      using assms canonical_length[of e "''.MD''"] canonical_length[of e "''.MARKDOWN''"] by auto
    ultimately show False by auto
  next
    case b
    then have l: "length q + length e = 8"
      using canonical_length[of "q @ e" "''MARKDOWN''"] by simp
    from assms show False
    proof
      assume m: "map canonicalize e = js ''.MD''"
      have "last (map canonicalize (q @ e)) = last (map canonicalize e)"
        using md_extension_last[OF assms] by simp
      then show False using b m by (simp add: js_def ch_def)
    next
      assume "map canonicalize e = js ''.MARKDOWN''"
      then have "length e = 9" using canonical_length[of e "''.MARKDOWN''"] by simp
      then show False using l by simp
    qed
  next
    case c
    have "last (q @ e) = last e" using md_extension_last[OF assms] by simp
    then have "w = last e" using c(1) by simp
    then show False using c(2) md_extension_last[OF assms] space_not_letter[of w] by auto
  qed
qed

lemma md_match_extension:
  assumes "map canonicalize e = js ''.MD'' \<or> map canonicalize e = js ''.MARKDOWN''"
  shows "md_match e"
proof -
  obtain d r where e: "e = d # r" using assms by (cases e) (auto simp: js_def)
  have d: "canonicalize d = ch CHR ''.''" using assms e by (auto simp: js_def)
  then have "d = ch CHR ''.''" by (auto simp: canonicalize_def ch_def split: if_splits)
  then have "\<not> isLineTerminator d" by (simp add: isLineTerminator_def ch_def)
  moreover have "map canonicalize r = js ''MD'' \<or> map canonicalize r = js ''MARKDOWN''"
    using assms e by (auto simp: js_def)
  then have "md_tail r" unfolding md_tail_iff by blast
  ultimately show ?thesis by (simp add: md_match_def e)
qed

lemma replace_md_extension:
  assumes "map canonicalize e = js ''.MD'' \<or> map canonicalize e = js ''.MARKDOWN''"
  shows "replace_md (q @ e) = q"
proof (induction q)
  case Nil
  obtain d r where e: "e = d # r" using assms by (cases e) (auto simp: js_def)
  show ?case using md_match_extension[OF assms] by (simp add: e)
next
  case (Cons c q)
  have "\<not> md_match (c # q @ e)"
    using not_md_tail_before_extension[OF assms, of q] by (simp add: md_match_def)
  then show ?case using Cons.IH by simp
qed

lemma endsWith_Cons: "endsWith p s \<Longrightarrow> endsWith (c # p) s"
  by (auto simp: endsWith_def Suc_diff_le)

lemma endsWith_refl: "endsWith s s"
  by (simp add: endsWith_def)

lemma md_tail_endsWith:
  assumes "md_tail r"
  shows "endsWith (map canonicalize r) (js ''MD'') \<or> endsWith (map canonicalize r) (js ''MARKDOWN'')
         \<or> (r \<noteq> [] \<and> isSpace (last r))"
proof -
  from assms consider (a) "map canonicalize r = js ''MD''"
    | (b) "map canonicalize r = js ''MARKDOWN''"
    | (c) r' w where "r = r' @ [w]" "isSpace w"
    unfolding md_tail_iff by blast
  then show ?thesis
  proof cases
    case a
    then show ?thesis using endsWith_refl[of "js ''MD''"] by simp
  next
    case b
    then show ?thesis using endsWith_refl[of "js ''MARKDOWN''"] by simp
  next
    case c
    then show ?thesis by simp
  qed
qed

lemma replace_md_unchanged:
  assumes "p \<noteq> [] \<longrightarrow> \<not> isSpace (last p)"
    and "\<not> endsWith (map canonicalize p) (js ''MD'')"
    and "\<not> endsWith (map canonicalize p) (js ''MARKDOWN'')"
  shows "replace_md p = p"
  using assms
proof (induction p)
  case Nil
  show ?case by simp
next
  case (Cons c p)
  have t: "\<not> md_tail p"
  proof
    assume "md_tail p"
    from md_tail_endsWith[OF this] Cons.prems show False
      using endsWith_Cons[of "map canonicalize p" _ "canonicalize c"] by auto
  qed
  have "replace_md p = p"
  proof (cases "p = []")
    case True
    then show ?thesis by simp
  next
    case False
    then show ?thesis using Cons endsWith_Cons[of "map canonicalize p" _ "canonicalize c"] by auto
  qed
  then show ?case using t by (simp add: md_match_def)
qed

lemma replace_md_subset: "set (replace_md p) \<subseteq> set p"
  by (induction p) auto

section \<open>The indices the interpreter reads\<close>

text \<open>
  The source reads \<open>parts[0]\<close>, \<open>parts[1]\<close> and \<open>nameParts[1]\<close>; wherever the
  interpreter does, the array is long enough.
\<close>

lemma count_list_member: "c \<in> set s \<Longrightarrow> 0 < count_list s c"
  using count_list_0_iff[of s c] by auto

lemma parts_first_in_range: "0 < length (parts lnk)"
  by (simp add: parts_def split_length)

lemma title_in_range: "length (parts lnk) = 2 \<Longrightarrow> 1 < length (parts lnk)"
  by simp

lemma name_parts_in_range:
  assumes "str_includes (name (title_split lnk)) (js ''#'')"
  shows "1 < length (map trim (split (ch CHR ''#'') (parts lnk ! 0)))"
proof -
  have "ch CHR ''#'' \<in> set (replace_md (parts lnk ! 0))"
    using assms by (simp add: title_split_def js_def str_includes_unit)
  then have "ch CHR ''#'' \<in> set (parts lnk ! 0)" using replace_md_subset by blast
  then show ?thesis using count_list_member by (simp add: split_length)
qed

lemma resolver_parts_in_range:
  assumes "str_includes (name m) (js '':'')"
  shows "1 < length (map trim (split (ch CHR '':'') (name m)))"
proof -
  have "ch CHR '':'' \<in> set (name m)" using assms by (simp add: js_def str_includes_unit)
  then show ?thesis using count_list_member by (simp add: split_length)
qed

section \<open>The title split\<close>

lemma parts_of_token:
  assumes "bang = [] \<or> bang = js ''!''"
  shows "parts (bang @ js ''[['' @ s @ js '']]'') = map trim (split (ch CHR ''|'') s)"
  using assms by (auto simp: parts_def startsWith_def slice_to_end_def js_def ch_def)

lemma parts_first: "parts tok ! 0 = trim (takeWhile (\<lambda>c. c \<noteq> ch CHR ''|'')
    (slice_to_end tok (if startsWith tok (js ''!'') then 3 else 2) 2))"
  by (simp only: parts_def split_first_trimmed)

lemma space_not_bar: "isSpace c \<Longrightarrow> c \<noteq> ch CHR ''|''"
  by (auto simp: isSpace_def isWhiteSpace_def isLineTerminator_def ch_def)

lemma interpret_link_plain:
  assumes "\<not> str_includes (name (title_split tok)) (js ''#'')"
    and "\<not> startsWith (name (title_split tok)) (js ''/'')"
    and "\<not> startsWith (name (title_split tok)) (js ''./'')"
    and "\<not> startsWith (name (title_split tok)) (js ''../'')"
    and "\<not> str_includes (name (title_split tok)) (js '':'')"
  shows "interpret_link this pd tok fps = Inr (title_split tok)"
proof -
  have a: "anchor_identification tok (title_split tok) = title_split tok"
    using assms(1) by (simp add: anchor_identification_def)
  have "isPath (title_split tok) = False" by (simp add: title_split_def)
  then have b: "path_identification fps (title_split tok) = Inr (title_split tok)"
    using assms(2-4) by (simp add: path_identification_def Let_def)
  show ?thesis
    using assms(5) by (simp add: interpret_link_def a b custom_resolving_fn_no_colon)
qed

lemma takeWhile_sep: "sep \<notin> set a \<Longrightarrow> takeWhile (\<lambda>c. c \<noteq> sep) (a @ sep # b) = a"
  by (induction a) auto

lemma dropWhile_sep: "sep \<notin> set a \<Longrightarrow> dropWhile (\<lambda>c. c \<noteq> sep) (a @ sep # b) = sep # b"
  by (induction a) auto

lemma interpret_pipes:
  "interpret_link this pd (js ''[[a|b|c]]'') fps =
     Inr \<lparr> title = None, name = js ''a'', anchor = None, link = js ''[[a|b|c]]'',
           isEmbed = False, isPath = False, exists = False, resolvingFnName = js ''default'',
           isImage = False, href = None, path = None, page = None \<rparr>"
  by (simp add: stage_defs str_defs)

lemma parts_pipes: "parts (js ''[[a|b|c]]'') = [js ''a'', js ''b'', js ''c'']"
  by (simp add: parts_def str_defs)

text \<open>
  C4, as stated, fails: the inner text of \<open>[[a|b|c]]\<close> has a second part, and the record
  returned for it has no title.
\<close>

theorem title_two_bars_counterexample:
  "parts (js ''[[a|b|c]]'') ! 1 = js ''b'' \<and>
   returned (parseSingle test_parser no_pages empty_state (js ''[[a|b|c]]'') None) =
     Inr \<lparr> title = None, name = js ''a'', anchor = None, link = js ''[[a|b|c]]'',
           isEmbed = False, isPath = False, exists = False, resolvingFnName = js ''default'',
           isImage = False, href = Some (js ''/stubs/''), path = None, page = None \<rparr>"
proof -
  have "linkCache empty_state (js ''[[a|b|c]]'') = None" by (simp add: empty_state_def)
  from returned_miss(1)[OF this interpret_pipes, of test_parser no_pages None]
  have "returned (parseSingle test_parser no_pages empty_state (js ''[[a|b|c]]'') None) =
     Inr \<lparr> title = None, name = js ''a'', anchor = None, link = js ''[[a|b|c]]'',
           isEmbed = False, isPath = False, exists = False, resolvingFnName = js ''default'',
           isImage = False, href = Some (js ''/stubs/''), path = None, page = None \<rparr>"
    by (simp add: image_embed_def page_lookup_def no_pages_def test_parser_def str_defs)
  then show ?thesis by (simp add: parts_pipes)
qed

text \<open>
  C4, amended. For a token \<open>(!)[[s]]\<close>, the inner text \<open>s\<close> is split on every bar and
  every part is trimmed. The title is the second part when there are exactly two parts
  (one bar) and \<open>null\<close> otherwise. The name is the first part \<open>p0\<close> after
  \<open>replace_md\<close>: when \<open>p0\<close> ends in \<open>.md\<close> or \<open>.markdown\<close> in any case, the name is
  \<open>p0\<close> without that extension, and when \<open>p0\<close> does not end in \<open>md\<close> or \<open>markdown\<close> in
  any case, the name is \<open>p0\<close>. White space around the name and around the title does not
  change either. When the name has no anchor, path or resolver marker, it is the name of
  the returned record, and the title is its title when no page is found or when it is
  set and the page was not found by an alias.
\<close>

theorem title_split_parts:
  assumes "bang = [] \<or> bang = js ''!''"
    and "tok = bang @ js ''[['' @ s @ js '']]''"
    and "p0 = trim (takeWhile (\<lambda>c. c \<noteq> ch CHR ''|'') s)"
  shows
    "title (title_split tok) =
       (if count_list s (ch CHR ''|'') = 1
        then Some (trim (tl (dropWhile (\<lambda>c. c \<noteq> ch CHR ''|'') s))) else None) \<and>
     name (title_split tok) = replace_md p0 \<and>
     (p0 = q @ e \<and> (map canonicalize e = js ''.MD'' \<or> map canonicalize e = js ''.MARKDOWN'')
        \<longrightarrow> name (title_split tok) = q) \<and>
     (\<not> endsWith (map canonicalize p0) (js ''MD'') \<and>
      \<not> endsWith (map canonicalize p0) (js ''MARKDOWN'') \<longrightarrow> name (title_split tok) = p0) \<and>
     ((\<forall>c \<in> set (wa @ wb @ wc @ wd). isSpace c) \<and> ch CHR ''|'' \<notin> set n \<and>
      ch CHR ''|'' \<notin> set t \<and> s = wa @ n @ wb @ [ch CHR ''|''] @ wc @ t @ wd \<longrightarrow>
        name (title_split tok)
          = name (title_split (bang @ js ''[['' @ n @ [ch CHR ''|''] @ t @ js '']]'')) \<and>
        title (title_split tok)
          = title (title_split (bang @ js ''[['' @ n @ [ch CHR ''|''] @ t @ js '']]'')) \<and>
        title (title_split tok) = Some (trim t)) \<and>
     (linkCache st tok = None \<and>
      \<not> str_includes (name (title_split tok)) (js ''#'') \<and>
      \<not> startsWith (name (title_split tok)) (js ''/'') \<and>
      \<not> startsWith (name (title_split tok)) (js ''./'') \<and>
      \<not> startsWith (name (title_split tok)) (js ''../'') \<and>
      \<not> str_includes (name (title_split tok)) (js '':'') \<and>
      \<not> (isEmbed (title_split tok) \<and> isImageFile (name (title_split tok))) \<and>
      (res_page (pd (title_split tok)) = None \<or>
       \<not> foundByAlias (pd (title_split tok)) \<and> title (title_split tok) \<noteq> None) \<longrightarrow>
        (\<exists>m. returned (parseSingle this pd st tok fps) = Inr m \<and>
             name m = name (title_split tok) \<and> title m = title (title_split tok)))"
proof (intro conjI impI)
  have parts: "parts tok = map trim (split (ch CHR ''|'') s)"
    using parts_of_token[OF assms(1)] assms(2) by simp
  have len: "length (parts tok) = Suc (count_list s (ch CHR ''|''))"
    by (simp add: parts split_length)
  show title: "title (title_split tok) =
       (if count_list s (ch CHR ''|'') = 1
        then Some (trim (tl (dropWhile (\<lambda>c. c \<noteq> ch CHR ''|'') s))) else None)"
  proof (cases "count_list s (ch CHR ''|'') = 1")
    case True
    then show ?thesis using len by (simp add: title_split_def parts split_two)
  next
    case False
    then show ?thesis using len by (simp add: title_split_def)
  qed
  show name: "name (title_split tok) = replace_md p0"
    by (simp add: title_split_def parts split_first_trimmed assms(3))
  show "name (title_split tok) = q"
    if "p0 = q @ e \<and> (map canonicalize e = js ''.MD'' \<or> map canonicalize e = js ''.MARKDOWN'')"
    using that replace_md_extension[of e q] by (simp add: name)
  show "name (title_split tok) = p0"
    if "\<not> endsWith (map canonicalize p0) (js ''MD'') \<and>
        \<not> endsWith (map canonicalize p0) (js ''MARKDOWN'')"
    using that trim_no_trailing_space[of "takeWhile (\<lambda>c. c \<noteq> ch CHR ''|'') s"]
    by (simp add: name assms(3) replace_md_unchanged)
  {
    assume pad: "(\<forall>c \<in> set (wa @ wb @ wc @ wd). isSpace c) \<and> ch CHR ''|'' \<notin> set n \<and>
      ch CHR ''|'' \<notin> set t \<and> s = wa @ n @ wb @ [ch CHR ''|''] @ wc @ t @ wd"
    let ?tok' = "bang @ js ''[['' @ n @ [ch CHR ''|''] @ t @ js '']]''"
    let ?P = "\<lambda>c. c \<noteq> ch CHR ''|''"
    have nobar: "ch CHR ''|'' \<notin> set (wa @ n @ wb)" "ch CHR ''|'' \<notin> set (wc @ t @ wd)"
      using pad space_not_bar by auto
    have s: "s = (wa @ n @ wb) @ ch CHR ''|'' # (wc @ t @ wd)" using pad by simp
    have tw: "takeWhile ?P s = wa @ n @ wb"
      unfolding s using nobar(1) by (rule takeWhile_sep)
    have dw: "dropWhile ?P s = ch CHR ''|'' # wc @ t @ wd"
      unfolding s using nobar(1) by (rule dropWhile_sep)
    have cnt: "count_list s (ch CHR ''|'') = 1"
      using nobar unfolding s by (simp add: count_list_0_iff)
    have tw': "takeWhile ?P (n @ ch CHR ''|'' # t) = n"
      using pad takeWhile_sep[of "ch CHR ''|''" n t] by simp
    have dw': "dropWhile ?P (n @ ch CHR ''|'' # t) = ch CHR ''|'' # t"
      using pad dropWhile_sep[of "ch CHR ''|''" n t] by simp
    have cnt': "count_list (n @ ch CHR ''|'' # t) (ch CHR ''|'') = 1"
      using pad by (simp add: count_list_0_iff)
    have parts': "parts (bang @ js ''[['' @ n @ ch CHR ''|'' # t @ js '']]'')
                    = map trim (split (ch CHR ''|'') (n @ ch CHR ''|'' # t))"
      using parts_of_token[OF assms(1), of "n @ ch CHR ''|'' # t"] by simp
    have sp: "\<forall>c \<in> set wa. isSpace c" "\<forall>c \<in> set wb. isSpace c"
      "\<forall>c \<in> set wc. isSpace c" "\<forall>c \<in> set wd. isSpace c"
      using pad by auto
    have t1: "title (title_split tok) = Some (trim t)"
      by (simp add: title cnt dw trim_pad[OF sp(3,4)])
    have t2: "title (title_split (bang @ js ''[['' @ n @ ch CHR ''|'' # t @ js '']]'')) = Some (trim t)"
      by (simp add: title_split_def parts' split_two[OF cnt'] dw')
    have n1: "name (title_split tok) = replace_md (trim n)"
      by (simp add: name assms(3) tw trim_pad[OF sp(1,2)])
    have n2: "name (title_split (bang @ js ''[['' @ n @ ch CHR ''|'' # t @ js '']]'')) = replace_md (trim n)"
      by (simp add: title_split_def parts' split_two[OF cnt'] tw')
    show "name (title_split tok) = name (title_split ?tok')" by (simp add: n1 n2)
    show "title (title_split tok) = title (title_split ?tok')" by (simp add: t1 t2)
    show "title (title_split tok) = Some (trim t)" by (rule t1)
  }
  {
    assume h: "linkCache st tok = None \<and>
      \<not> str_includes (name (title_split tok)) (js ''#'') \<and>
      \<not> startsWith (name (title_split tok)) (js ''/'') \<and>
      \<not> startsWith (name (title_split tok)) (js ''./'') \<and>
      \<not> startsWith (name (title_split tok)) (js ''../'') \<and>
      \<not> str_includes (name (title_split tok)) (js '':'') \<and>
      \<not> (isEmbed (title_split tok) \<and> isImageFile (name (title_split tok))) \<and>
      (res_page (pd (title_split tok)) = None \<or>
       \<not> foundByAlias (pd (title_split tok)) \<and> title (title_split tok) \<noteq> None)"
    then have i: "interpret_link this pd tok fps = Inr (title_split tok)"
      by (intro interpret_link_plain) simp_all
    have skip: "image_embed this tok fps (title_split tok) (deadLinks st)
                  = (title_split tok, deadLinks st)"
      using h by (intro image_embed_skip) simp
    have "title (fst (page_lookup this pd tok (title_split tok) (deadLinks st)))
            = title (title_split tok)"
      using h by (auto simp: page_lookup_def split: option.splits)
    then show "\<exists>m. returned (parseSingle this pd st tok fps) = Inr m \<and>
             name m = name (title_split tok) \<and> title m = title (title_split tok)"
      using h returned_miss(1)[OF _ i, of st] by (simp add: skip page_lookup_fields)
  }
qed

theorem title_split_parts_witness:
  "name (title_split (js ''[[ hello-world | custom title ]]'')) = js ''hello-world'' \<and>
   title (title_split (js ''[[ hello-world | custom title ]]'')) = Some (js ''custom title'') \<and>
   name (title_split (js ''[[hello-world|custom title]]'')) = js ''hello-world'' \<and>
   title (title_split (js ''[[hello-world|custom title]]'')) = Some (js ''custom title'') \<and>
   (\<exists>m. returned (parseSingle test_parser no_pages empty_state
                 (js ''[[ hello-world | custom title ]]'') None) = Inr m \<and>
        name m = js ''hello-world'' \<and> title m = Some (js ''custom title'')) \<and>
   name (title_split (js ''![[Notes.MD]]'')) = js ''Notes''"
proof -
  have a1: "[] = [] \<or> [] = js ''!''" by simp
  have a2: "js ''[[ hello-world | custom title ]]''
              = [] @ js ''[['' @ js '' hello-world | custom title '' @ js '']]''"
    by (simp add: js_def)
  have a3: "js ''hello-world''
              = trim (takeWhile (\<lambda>c. c \<noteq> ch CHR ''|'') (js '' hello-world | custom title ''))"
    by (simp add: str_defs)
  have b1: "js ''!'' = [] \<or> js ''!'' = js ''!''" by simp
  have b2: "js ''![[Notes.MD]]'' = js ''!'' @ js ''[['' @ js ''Notes.MD'' @ js '']]''"
    by (simp add: js_def)
  have b3: "js ''Notes.MD'' = trim (takeWhile (\<lambda>c. c \<noteq> ch CHR ''|'') (js ''Notes.MD''))"
    by (simp add: str_defs)
  have c: "title (title_split (js ''[[hello-world|custom title]]'')) = Some (js ''custom title'')"
    by (simp add: title_split_def parts_def str_defs)
  note t1 = title_split_parts[OF a1 a2 a3, where wa = "js '' ''" and wb = "js '' ''"
      and wc = "js '' ''" and wd = "js '' ''" and n = "js ''hello-world''"
      and t = "js ''custom title''" and st = empty_state and pd = no_pages
      and this = test_parser and fps = None and q = "[]" and e = "[]"]
  note t2 = title_split_parts[OF b1 b2 b3, where q = "js ''Notes''" and e = "js ''.MD''"
      and wa = "[]" and wb = "[]" and wc = "[]" and wd = "[]" and n = "[]" and t = "[]"
      and st = empty_state and pd = no_pages and this = test_parser and fps = None]
  have n1: "name (title_split (js ''[[ hello-world | custom title ]]'')) = js ''hello-world''"
    using t1[THEN conjunct2, THEN conjunct2, THEN conjunct2, THEN conjunct1]
    by (simp add: str_defs)
  have n2: "name (title_split (js ''![[Notes.MD]]'')) = js ''Notes''"
    using t2[THEN conjunct2, THEN conjunct2, THEN conjunct1]
    by (simp add: str_defs)
  have pad: "name (title_split (js ''[[ hello-world | custom title ]]''))
               = name (title_split (js ''[[hello-world|custom title]]'')) \<and>
             title (title_split (js ''[[ hello-world | custom title ]]''))
               = title (title_split (js ''[[hello-world|custom title]]'')) \<and>
             title (title_split (js ''[[ hello-world | custom title ]]''))
               = Some (trim (js ''custom title''))"
    using t1[THEN conjunct2, THEN conjunct2, THEN conjunct2, THEN conjunct2, THEN conjunct1]
    by (auto simp: str_defs)
  have tt: "title (title_split (js ''[[ hello-world | custom title ]]'')) = Some (js ''custom title'')"
    using pad[THEN conjunct2, THEN conjunct2] by (simp add: str_defs)
  have hyp: "linkCache empty_state (js ''[[ hello-world | custom title ]]'') = None \<and>
      \<not> str_includes (name (title_split (js ''[[ hello-world | custom title ]]''))) (js ''#'') \<and>
      \<not> startsWith (name (title_split (js ''[[ hello-world | custom title ]]''))) (js ''/'') \<and>
      \<not> startsWith (name (title_split (js ''[[ hello-world | custom title ]]''))) (js ''./'') \<and>
      \<not> startsWith (name (title_split (js ''[[ hello-world | custom title ]]''))) (js ''../'') \<and>
      \<not> str_includes (name (title_split (js ''[[ hello-world | custom title ]]''))) (js '':'') \<and>
      \<not> (isEmbed (title_split (js ''[[ hello-world | custom title ]]'')) \<and>
         isImageFile (name (title_split (js ''[[ hello-world | custom title ]]'')))) \<and>
      (res_page (no_pages (title_split (js ''[[ hello-world | custom title ]]''))) = None \<or>
       \<not> foundByAlias (no_pages (title_split (js ''[[ hello-world | custom title ]]''))) \<and>
       title (title_split (js ''[[ hello-world | custom title ]]'')) \<noteq> None)"
    unfolding n1 tt
    by (simp add: empty_state_def no_pages_def str_includes_unit title_split_fields) (simp add: str_defs)
  have ret: "\<exists>m. returned (parseSingle test_parser no_pages empty_state
                 (js ''[[ hello-world | custom title ]]'') None) = Inr m \<and>
        name m = name (title_split (js ''[[ hello-world | custom title ]]'')) \<and>
        title m = title (title_split (js ''[[ hello-world | custom title ]]''))"
    using t1[THEN conjunct2, THEN conjunct2, THEN conjunct2, THEN conjunct2, THEN conjunct2,
        rule_format, OF hyp] .
  show ?thesis using n1 n2 pad ret c tt by simp
qed

section \<open>The anchor split\<close>















section \<open>The cache over a sequence of calls\<close>

lemma parseSingle_step:
  "snd (parseSingle this pd st tok fps) = st \<or>
   (linkCache st tok = None \<and>
    (\<exists>m. snd (parseSingle this pd st tok fps) =
            \<lparr> heap = heap st @ [m], linkCache = (linkCache st)(tok \<mapsto> length (heap st)),
              deadLinks = deadLinks (snd (parseSingle this pd st tok fps)) \<rparr>))"
proof (cases "linkCache st tok")
  case (Some r)
  then show ?thesis by (simp add: parseSingle_hit)
next
  case None
  show ?thesis
  proof (cases "interpret_link this pd tok fps")
    case (Inl e)
    then show ?thesis using None by (simp add: parseSingle_miss_error)
  next
    case (Inr m)
    obtain st' where p: "parseSingle this pd st tok fps = (Inr (length (heap st)), st')"
      and h: "\<exists>x. heap st' = heap st @ [x]"
      and c: "linkCache st' = (linkCache st)(tok \<mapsto> length (heap st))"
      using parseSingle_miss_ok[OF None Inr] by blast
    then obtain x where "heap st' = heap st @ [x]" by blast
    then have "st' = \<lparr> heap = heap st @ [x], linkCache = (linkCache st)(tok \<mapsto> length (heap st)),
              deadLinks = deadLinks st' \<rparr>"
      using c by simp
    then show ?thesis using None p by auto
  qed
qed

lemma parseSingle_keeps_cache:
  assumes "linkCache st k = Some r"
  shows "linkCache (snd (parseSingle this pd st tok fps)) k = Some r"
proof (rule disjE[OF parseSingle_step[of this pd st tok fps]])
  assume "snd (parseSingle this pd st tok fps) = st"
  then show ?thesis using assms by simp
next
  assume "linkCache st tok = None \<and>
    (\<exists>m. snd (parseSingle this pd st tok fps) =
            \<lparr> heap = heap st @ [m], linkCache = (linkCache st)(tok \<mapsto> length (heap st)),
              deadLinks = deadLinks (snd (parseSingle this pd st tok fps)) \<rparr>)"
  then obtain m where n: "linkCache st tok = None"
    and s: "snd (parseSingle this pd st tok fps) =
            \<lparr> heap = heap st @ [m], linkCache = (linkCache st)(tok \<mapsto> length (heap st)),
              deadLinks = deadLinks (snd (parseSingle this pd st tok fps)) \<rparr>"
    by blast
  have "k \<noteq> tok" using n assms by auto
  then have "((linkCache st)(tok \<mapsto> length (heap st))) k = Some r" using assms by simp
  then show ?thesis by (subst s) simp
qed

lemma parseSingle_keeps_heap:
  assumes "r < length (heap st)"
  shows "r < length (heap (snd (parseSingle this pd st tok fps))) \<and>
         heap (snd (parseSingle this pd st tok fps)) ! r = heap st ! r"
proof (rule disjE[OF parseSingle_step[of this pd st tok fps]])
  assume "snd (parseSingle this pd st tok fps) = st"
  then show ?thesis using assms by simp
next
  assume "linkCache st tok = None \<and>
    (\<exists>m. snd (parseSingle this pd st tok fps) =
            \<lparr> heap = heap st @ [m], linkCache = (linkCache st)(tok \<mapsto> length (heap st)),
              deadLinks = deadLinks (snd (parseSingle this pd st tok fps)) \<rparr>)"
  then obtain m where
    s: "snd (parseSingle this pd st tok fps) =
            \<lparr> heap = heap st @ [m], linkCache = (linkCache st)(tok \<mapsto> length (heap st)),
              deadLinks = deadLinks (snd (parseSingle this pd st tok fps)) \<rparr>"
    by blast
  have "heap (snd (parseSingle this pd st tok fps)) = heap st @ [m]" by (subst s) simp
  then show ?thesis using assms by (simp add: nth_append)
qed

lemma after_calls_keeps:
  assumes "linkCache st k = Some r" and "r < length (heap st)"
  shows "linkCache (after_calls st cs) k = Some r \<and> r < length (heap (after_calls st cs)) \<and>
         heap (after_calls st cs) ! r = heap st ! r"
  using assms
proof (induction cs arbitrary: st)
  case Nil
  then show ?case by simp
next
  case (Cons c cs)
  obtain this pd tok fps where c: "c = (this, pd, tok, fps)" by (cases c) auto
  let ?st = "snd (parseSingle this pd st tok fps)"
  have a: "linkCache ?st k = Some r" using Cons.prems(1) by (rule parseSingle_keeps_cache)
  have b: "r < length (heap ?st)" "heap ?st ! r = heap st ! r"
    using parseSingle_keeps_heap[OF Cons.prems(2)] by simp_all
  from Cons.IH[OF a b(1)] b(2) show ?case by (simp add: c)
qed

lemma parseSingle_returns_cached:
  assumes "cache_valid st" and "parseSingle this pd st tok fps = (Inr r, st1)"
  shows "linkCache st1 tok = Some r \<and> r < length (heap st1)"
proof (cases "linkCache st tok")
  case (Some r')
  then have "r' = r" "st1 = st" using assms(2) by (simp_all add: parseSingle_hit)
  moreover have "r' < length (heap st)"
    using Some assms(1) by (auto simp: cache_valid_def ran_def)
  ultimately show ?thesis using Some by simp
next
  case None
  show ?thesis
  proof (cases "interpret_link this pd tok fps")
    case (Inl e)
    then show ?thesis using None assms(2) by (simp add: parseSingle_miss_error)
  next
    case (Inr m)
    from parseSingle_miss_ok[OF None Inr] assms(2) show ?thesis by auto
  qed
qed

text \<open>
  C3. Let a call of \<open>parseSingle\<close> for the token \<open>t\<close> return the reference \<open>r\<close>, on
  tables whose cached references are valid. Then after any sequence of further calls on
  the same tables, a call for \<open>t\<close>, with whatever parser options, page index and
  referencing path, returns the same reference \<open>r\<close> and leaves the tables as they are,
  and the record stored under \<open>r\<close> is the one the first call left there.
\<close>

theorem parseSingle_cached_instance:
  assumes "cache_valid st"
    and "parseSingle this pd st t fps = (Inr r, st1)"
  shows "parseSingle this' pd' (after_calls st1 cs) t fps' = (Inr r, after_calls st1 cs) \<and>
         r < length (heap st1) \<and>
         heap (after_calls st1 cs) ! r = heap st1 ! r \<and>
         linkCache (after_calls st1 cs) t = Some r"
proof -
  have c: "linkCache st1 t = Some r" "r < length (heap st1)"
    using parseSingle_returns_cached[OF assms] by simp_all
  from after_calls_keeps[OF c, of cs] c(2) show ?thesis
    by (simp add: parseSingle_hit)
qed

theorem parseSingle_cached_instance_witness:
  "fst (parseSingle test_parser no_pages empty_state (js ''[[invalid]]'') None) = Inr 0 \<and>
   parseSingle gallery_parser no_pages
     (after_calls (snd (parseSingle test_parser no_pages empty_state (js ''[[invalid]]'') None))
        [(custom_parser, no_pages, js ''[[test:1234]]'', None),
         (test_parser, no_pages, js ''[[fail:1234]]'', Some (js ''/directory/filename''))])
     (js ''[[invalid]]'') (Some (js ''/blog/a-blog-post''))
   = (Inr 0,
      after_calls (snd (parseSingle test_parser no_pages empty_state (js ''[[invalid]]'') None))
        [(custom_parser, no_pages, js ''[[test:1234]]'', None),
         (test_parser, no_pages, js ''[[fail:1234]]'', Some (js ''/directory/filename''))]) \<and>
   heap (after_calls (snd (parseSingle test_parser no_pages empty_state (js ''[[invalid]]'') None))
        [(custom_parser, no_pages, js ''[[test:1234]]'', None),
         (test_parser, no_pages, js ''[[fail:1234]]'', Some (js ''/directory/filename''))]) ! 0
   = heap (snd (parseSingle test_parser no_pages empty_state (js ''[[invalid]]'') None)) ! 0"
proof -
  have cv: "cache_valid empty_state" by (simp add: cache_valid_def empty_state_def)
  have miss: "linkCache empty_state (js ''[[invalid]]'') = None" by (simp add: empty_state_def)
  have f: "fst (parseSingle test_parser no_pages empty_state (js ''[[invalid]]'') None) = Inr 0"
    using returned_miss(3)[OF miss interpret_invalid[of test_parser no_pages None]]
    by (simp add: empty_state_def)
  then have p: "parseSingle test_parser no_pages empty_state (js ''[[invalid]]'') None
      = (Inr 0, snd (parseSingle test_parser no_pages empty_state (js ''[[invalid]]'') None))"
    by (metis prod.collapse)
  from parseSingle_cached_instance[OF cv p, of gallery_parser no_pages
      "[(custom_parser, no_pages, js ''[[test:1234]]'', None),
        (test_parser, no_pages, js ''[[fail:1234]]'', Some (js ''/directory/filename''))]"
      "Some (js ''/blog/a-blog-post'')"] f
  show ?thesis by blast
qed

section \<open>The grammar\<close>

lemma segments_ok_iff:
  "segments_ok inner =
     (\<exists>X T. inner = X @ T \<and> X \<noteq> [] \<and> (\<forall>c \<in> set X. c \<noteq> ch CHR ''|'' \<and> c \<noteq> ch CHR 0x0A) \<and>
        (T = [] \<or> (\<exists>Y. T = ch CHR ''|'' # Y \<and> Y \<noteq> [] \<and> ch CHR 0x0A \<notin> set Y)))"
  (is "?L = ?R")
proof
  let ?P = "\<lambda>c. c \<noteq> ch CHR ''|''"
  assume l: ?L
  let ?X = "takeWhile ?P inner" and ?T = "dropWhile ?P inner"
  have x: "?X \<noteq> []" "ch CHR 0x0A \<notin> set ?X"
    and t: "?T = [] \<or> tl ?T \<noteq> [] \<and> ch CHR 0x0A \<notin> set (tl ?T)"
    using l by (simp_all add: segments_ok_def Let_def)
  have a: "inner = ?X @ ?T" by simp
  have b: "\<forall>c \<in> set ?X. c \<noteq> ch CHR ''|'' \<and> c \<noteq> ch CHR 0x0A"
    using x(2) set_takeWhileD[of _ ?P inner] by auto
  have c: "?T = [] \<or> (\<exists>Y. ?T = ch CHR ''|'' # Y \<and> Y \<noteq> [] \<and> ch CHR 0x0A \<notin> set Y)"
  proof (cases ?T)
    case Nil
    then show ?thesis by simp
  next
    case (Cons h Y)
    have "\<not> ?P (hd ?T)" by (rule hd_dropWhile) (simp add: Cons)
    then have "h = ch CHR ''|''" using Cons by simp
    then show ?thesis using t Cons by simp
  qed
  show ?R using a b c x(1) by blast
next
  let ?P = "\<lambda>c. c \<noteq> ch CHR ''|''"
  assume ?R
  then obtain X T where i: "inner = X @ T" and x: "X \<noteq> []"
    and xs: "\<forall>c \<in> set X. c \<noteq> ch CHR ''|'' \<and> c \<noteq> ch CHR 0x0A"
    and t: "T = [] \<or> (\<exists>Y. T = ch CHR ''|'' # Y \<and> Y \<noteq> [] \<and> ch CHR 0x0A \<notin> set Y)"
    by blast
  have nb: "ch CHR ''|'' \<notin> set X" and nn: "ch CHR 0x0A \<notin> set X" using xs by auto
  from t show ?L
  proof
    assume "T = []"
    then have "takeWhile ?P inner = X" "dropWhile ?P inner = []"
      using i nb by (auto simp: takeWhile_eq_all_conv)
    then show ?thesis using x nn by (simp add: segments_ok_def)
  next
    assume "\<exists>Y. T = ch CHR ''|'' # Y \<and> Y \<noteq> [] \<and> ch CHR 0x0A \<notin> set Y"
    then obtain Y where y: "T = ch CHR ''|'' # Y" "Y \<noteq> []" "ch CHR 0x0A \<notin> set Y" by blast
    have "takeWhile ?P inner = X" "dropWhile ?P inner = ch CHR ''|'' # Y"
      using i y(1) nb by (simp_all add: takeWhile_sep dropWhile_sep)
    then show ?thesis using x nn y by (simp add: segments_ok_def)
  qed
qed

lemma bracketed_iff:
  "(4 \<le> length body \<and> startsWith body (js ''[['') \<and> endsWith body (js '']]''))
     = (\<exists>inner. body = js ''[['' @ inner @ js '']]'')"
  (is "?L = ?R")
proof
  assume l: ?L
  let ?n = "length body"
  have "body = take 2 body @ drop 2 body" by simp
  also have "drop 2 body = take (?n - 4) (drop 2 body) @ drop (?n - 4) (drop 2 body)"
    by (rule append_take_drop_id[symmetric])
  also have "drop (?n - 4) (drop 2 body) = drop (?n - 2) body"
  proof -
    have "4 \<le> ?n" using l by simp
    then have "?n - 4 + 2 = ?n - 2" by arith
    then show ?thesis by (simp only: drop_drop)
  qed
  finally have "body = take 2 body @ take (?n - 4) (drop 2 body) @ drop (?n - 2) body" .
  moreover have "take 2 body = js ''[[''" "drop (?n - 2) body = js '']]''"
    using l by (simp_all add: startsWith_def endsWith_def js_def numeral_2_eq_2)
  ultimately show ?R by metis
next
  assume ?R
  then obtain inner where "body = js ''[['' @ inner @ js '']]''" by blast
  then show ?L by (simp add: startsWith_def endsWith_def js_def)
qed

lemma slice_bracketed: "slice_to_end (js ''[['' @ inner @ js '']]'') 2 2 = inner"
  by (simp add: slice_to_end_def js_def)

lemma wikilink_form_iff:
  "wikilink_form t =
     (\<exists>bang X T. t = bang @ js ''[['' @ X @ T @ js '']]'' \<and> (bang = [] \<or> bang = js ''!'') \<and>
        X \<noteq> [] \<and> (\<forall>c \<in> set X. c \<noteq> ch CHR ''|'' \<and> c \<noteq> ch CHR 0x0A) \<and>
        (T = [] \<or> (\<exists>Y. T = ch CHR ''|'' # Y \<and> Y \<noteq> [] \<and> ch CHR 0x0A \<notin> set Y)))"
  (is "?L = ?R")
proof
  assume l: ?L
  let ?body = "if startsWith t (js ''!'') then drop 1 t else t"
  have "4 \<le> length ?body \<and> startsWith ?body (js ''[['') \<and> endsWith ?body (js '']]'')"
    using l by (simp add: wikilink_form_def Let_def)
  then obtain inner where b: "?body = js ''[['' @ inner @ js '']]''"
    unfolding bracketed_iff by blast
  have "segments_ok (slice_to_end ?body 2 2)" using l by (simp add: wikilink_form_def Let_def)
  then have "segments_ok inner" by (simp only: b slice_bracketed)
  then obtain X T where s: "inner = X @ T" "X \<noteq> []"
    "\<forall>c \<in> set X. c \<noteq> ch CHR ''|'' \<and> c \<noteq> ch CHR 0x0A"
    "T = [] \<or> (\<exists>Y. T = ch CHR ''|'' # Y \<and> Y \<noteq> [] \<and> ch CHR 0x0A \<notin> set Y)"
    unfolding segments_ok_iff by blast
  obtain bang where "t = bang @ ?body" "bang = [] \<or> bang = js ''!''"
  proof (cases "startsWith t (js ''!'')")
    case True
    then have "t = js ''!'' @ drop 1 t"
      using append_take_drop_id[of 1 t] by (simp add: startsWith_def js_def)
    then show ?thesis using True that[of "js ''!''"] by simp
  next
    case False
    then show ?thesis using that[of "[]"] by simp
  qed
  then show ?R using b s by auto
next
  assume ?R
  then obtain bang X T where t: "t = bang @ js ''[['' @ X @ T @ js '']]''"
    and bang: "bang = [] \<or> bang = js ''!''"
    and s: "X \<noteq> []" "\<forall>c \<in> set X. c \<noteq> ch CHR ''|'' \<and> c \<noteq> ch CHR 0x0A"
      "T = [] \<or> (\<exists>Y. T = ch CHR ''|'' # Y \<and> Y \<noteq> [] \<and> ch CHR 0x0A \<notin> set Y)"
    by blast
  let ?body = "if startsWith t (js ''!'') then drop 1 t else t"
  have b: "?body = js ''[['' @ (X @ T) @ js '']]''"
    using t bang by (auto simp: startsWith_def js_def ch_def)
  have "segments_ok (X @ T)" unfolding segments_ok_iff using s by blast
  then have "segments_ok (slice_to_end ?body 2 2)" by (simp only: b slice_bracketed)
  moreover have "4 \<le> length ?body \<and> startsWith ?body (js ''[['') \<and> endsWith ?body (js '']]'')"
    unfolding bracketed_iff using b by blast
  ultimately show ?L by (simp add: wikilink_form_def Let_def)
qed

section \<open>What the extractor's expression matches\<close>

lemma starts_with_close: "startsWith cs (js '']]'') \<Longrightarrow> cs = js '']]'' @ drop 2 cs"
proof -
  assume "startsWith cs (js '']]'')"
  then have "take 2 cs = js '']]''" by (simp add: startsWith_def js_def numeral_2_eq_2)
  then show ?thesis using append_take_drop_id[of 2 cs] by simp
qed

lemma match_title_sound:
  "match_title s = Some (m, r) \<Longrightarrow>
   s = m @ r \<and> (\<exists>Y. m = Y @ js '']]'' \<and> Y \<noteq> [] \<and> ch CHR 0x0A \<notin> set Y)"
proof (induction s arbitrary: m r)
  case Nil
  then show ?case by simp
next
  case (Cons c cs)
  have nl: "c \<noteq> ch CHR 0x0A" using Cons.prems by (auto split: if_splits)
  show ?case
  proof (cases "startsWith cs (js '']]'')")
    case True
    then have m: "m = c # js '']]''" "r = drop 2 cs" using Cons.prems nl by simp_all
    have "c # cs = (c # js '']]'') @ drop 2 cs" using starts_with_close[OF True] by simp
    moreover have "c # js '']]'' = [c] @ js '']]''" by simp
    ultimately show ?thesis using m nl by (metis list.distinct(1) list.set(1) list.set(2) singletonD empty_iff)
  next
    case False
    then obtain m' where m': "match_title cs = Some (m', r)" "m = c # m'"
      using Cons.prems nl by (auto split: option.splits)
    from Cons.IH[OF m'(1)] obtain Y where "cs = m' @ r" "m' = Y @ js '']]''" "Y \<noteq> []"
      "ch CHR 0x0A \<notin> set Y" by blast
    then have "c # cs = m @ r" "m = (c # Y) @ js '']]''" "c # Y \<noteq> []"
      "ch CHR 0x0A \<notin> set (c # Y)"
      using m'(2) nl by auto
    then show ?thesis by blast
  qed
qed

lemma match_rest_sound:
  assumes "match_rest s = Some (m, r)"
  shows "s = m @ r \<and>
         (\<exists>T. m = T @ js '']]'' \<and>
            (T = [] \<or> (\<exists>Y. T = ch CHR ''|'' # Y \<and> Y \<noteq> [] \<and> ch CHR 0x0A \<notin> set Y)))"
proof (cases "\<exists>c cs m' r'. s = c # cs \<and> c = ch CHR ''|'' \<and> match_title cs = Some (m', r')")
  case True
  then obtain cs m' r' where s: "s = ch CHR ''|'' # cs" and t: "match_title cs = Some (m', r')"
    by blast
  then have "m = ch CHR ''|'' # m'" "r = r'" using assms by (simp_all add: match_rest_def)
  moreover obtain Y where "cs = m' @ r'" "m' = Y @ js '']]''" "Y \<noteq> []" "ch CHR 0x0A \<notin> set Y"
    using match_title_sound[OF t] by blast
  ultimately have "s = m @ r" "m = (ch CHR ''|'' # Y) @ js '']]''" "Y \<noteq> []"
    "ch CHR 0x0A \<notin> set Y"
    using s by simp_all
  then show ?thesis by blast
next
  case False
  then have "(case s of [] \<Rightarrow> None
              | c # cs \<Rightarrow> if c = ch CHR ''|''
                          then (case match_title cs of None \<Rightarrow> None
                                | Some (m, r) \<Rightarrow> Some (ch CHR ''|'' # m, r))
                          else None) = None"
    by (auto split: list.splits option.splits)
  then have "startsWith s (js '']]'')" "m = js '']]''" "r = drop 2 s"
    using assms by (auto simp: match_rest_def split: list.splits option.splits if_splits)
  then show ?thesis using starts_with_close[of s] by auto
qed

lemma match_name_sound:
  "match_name s = Some (m, r) \<Longrightarrow>
   s = m @ r \<and>
   (\<exists>X T. m = X @ T @ js '']]'' \<and> X \<noteq> [] \<and>
      (\<forall>c \<in> set X. c \<noteq> ch CHR ''|'' \<and> c \<noteq> ch CHR 0x0A) \<and>
      (T = [] \<or> (\<exists>Y. T = ch CHR ''|'' # Y \<and> Y \<noteq> [] \<and> ch CHR 0x0A \<notin> set Y)))"
proof (induction s arbitrary: m r)
  case Nil
  then show ?case by simp
next
  case (Cons c cs)
  have ok: "c \<noteq> ch CHR ''|'' \<and> c \<noteq> ch CHR 0x0A" using Cons.prems by (auto split: if_splits)
  show ?case
  proof (cases "match_rest cs")
    case (Some res)
    obtain m' r' where res: "res = (m', r')" by (cases res)
    then have m: "m = c # m'" "r = r'" using Cons.prems ok Some by simp_all
    obtain T where "cs = m' @ r'" "m' = T @ js '']]''"
      "T = [] \<or> (\<exists>Y. T = ch CHR ''|'' # Y \<and> Y \<noteq> [] \<and> ch CHR 0x0A \<notin> set Y)"
      using match_rest_sound[of cs m' r'] Some res by blast
    then have "c # cs = m @ r" "m = [c] @ T @ js '']]''" "[c] \<noteq> []"
      "\<forall>x \<in> set [c]. x \<noteq> ch CHR ''|'' \<and> x \<noteq> ch CHR 0x0A"
      "T = [] \<or> (\<exists>Y. T = ch CHR ''|'' # Y \<and> Y \<noteq> [] \<and> ch CHR 0x0A \<notin> set Y)"
      using m ok by simp_all
    then show ?thesis by blast
  next
    case None
    then obtain m' where m': "match_name cs = Some (m', r)" "m = c # m'"
      using Cons.prems ok by (auto split: option.splits)
    from Cons.IH[OF m'(1)] obtain X T where "cs = m' @ r" "m' = X @ T @ js '']]''" "X \<noteq> []"
      "\<forall>x \<in> set X. x \<noteq> ch CHR ''|'' \<and> x \<noteq> ch CHR 0x0A"
      "T = [] \<or> (\<exists>Y. T = ch CHR ''|'' # Y \<and> Y \<noteq> [] \<and> ch CHR 0x0A \<notin> set Y)"
      by blast
    then have "c # cs = m @ r" "m = (c # X) @ T @ js '']]''" "c # X \<noteq> []"
      "\<forall>x \<in> set (c # X). x \<noteq> ch CHR ''|'' \<and> x \<noteq> ch CHR 0x0A"
      "T = [] \<or> (\<exists>Y. T = ch CHR ''|'' # Y \<and> Y \<noteq> [] \<and> ch CHR 0x0A \<notin> set Y)"
      using m'(2) ok by simp_all
    then show ?thesis by blast
  qed
qed

lemma match_open_sound:
  assumes "match_open s = Some (m, r)"
  shows "s = m @ r \<and>
   (\<exists>X T. m = js ''[['' @ X @ T @ js '']]'' \<and> X \<noteq> [] \<and>
      (\<forall>c \<in> set X. c \<noteq> ch CHR ''|'' \<and> c \<noteq> ch CHR 0x0A) \<and>
      (T = [] \<or> (\<exists>Y. T = ch CHR ''|'' # Y \<and> Y \<noteq> [] \<and> ch CHR 0x0A \<notin> set Y)))"
proof -
  have st: "startsWith s (js ''[['')" using assms by (auto simp: match_open_def split: if_splits)
  then obtain m' where m': "match_name (drop 2 s) = Some (m', r)" "m = js ''[['' @ m'"
    using assms by (auto simp: match_open_def split: option.splits)
  have "take 2 s = js ''[[''" using st by (simp add: startsWith_def js_def numeral_2_eq_2)
  then have s: "s = js ''[['' @ drop 2 s" using append_take_drop_id[of 2 s] by simp
  from match_name_sound[OF m'(1)] obtain X T where x: "drop 2 s = m' @ r"
    "m' = X @ T @ js '']]''" "X \<noteq> []"
    "\<forall>c \<in> set X. c \<noteq> ch CHR ''|'' \<and> c \<noteq> ch CHR 0x0A"
    "T = [] \<or> (\<exists>Y. T = ch CHR ''|'' # Y \<and> Y \<noteq> [] \<and> ch CHR 0x0A \<notin> set Y)"
    by blast
  have "s = m @ r" using s x(1) m'(2) by (metis append.assoc)
  moreover have "m = js ''[['' @ X @ T @ js '']]''" using m'(2) x(2) by simp
  ultimately show ?thesis using x(3-5) by blast
qed

lemma wikiLinkRegExp_sound:
  assumes "wikiLinkRegExp prev s = Some (m, r)"
  shows "prev \<noteq> Some (ch CHR ''!'') \<and> s = m @ r \<and> wikilink_form m"
proof -
  have p: "prev \<noteq> Some (ch CHR ''!'')"
    using assms by (auto simp: wikiLinkRegExp_def split: if_splits)
  show ?thesis
  proof (cases "\<exists>cs m' r'. s = ch CHR ''!'' # cs \<and> match_open cs = Some (m', r')")
    case True
    then obtain cs m' r' where s: "s = ch CHR ''!'' # cs" and o: "match_open cs = Some (m', r')"
      by blast
    then have m: "m = ch CHR ''!'' # m'" "r = r'"
      using assms p by (simp_all add: wikiLinkRegExp_def)
    from match_open_sound[OF o] obtain X T where x: "cs = m' @ r'"
      "m' = js ''[['' @ X @ T @ js '']]''" "X \<noteq> []"
      "\<forall>c \<in> set X. c \<noteq> ch CHR ''|'' \<and> c \<noteq> ch CHR 0x0A"
      "T = [] \<or> (\<exists>Y. T = ch CHR ''|'' # Y \<and> Y \<noteq> [] \<and> ch CHR 0x0A \<notin> set Y)"
      by blast
    have "m = js ''!'' @ js ''[['' @ X @ T @ js '']]''" using m(1) x(2) by (simp add: js_def)
    then have "wikilink_form m" unfolding wikilink_form_iff using x(3-5) by blast
    then show ?thesis using p s m x(1) by simp
  next
    case False
    then have "(case s of [] \<Rightarrow> None
                | c # cs \<Rightarrow> if c = ch CHR ''!''
                            then (case match_open cs of None \<Rightarrow> None
                                  | Some (m, r) \<Rightarrow> Some (c # m, r))
                            else None) = None"
      by (auto split: list.splits option.splits)
    then have o: "match_open s = Some (m, r)" using assms p by (simp add: wikiLinkRegExp_def)
    from match_open_sound[OF o] obtain X T where x: "s = m @ r"
      "m = js ''[['' @ X @ T @ js '']]''" "X \<noteq> []"
      "\<forall>c \<in> set X. c \<noteq> ch CHR ''|'' \<and> c \<noteq> ch CHR 0x0A"
      "T = [] \<or> (\<exists>Y. T = ch CHR ''|'' # Y \<and> Y \<noteq> [] \<and> ch CHR 0x0A \<notin> set Y)"
      by blast
    have "m = [] @ js ''[['' @ X @ T @ js '']]''" using x(2) by simp
    then have "wikilink_form m" unfolding wikilink_form_iff using x(3-5) by blast
    then show ?thesis using p x(1) by simp
  qed
qed

lemma match_all_sound: "\<forall>tok \<in> set (match_all k prev s). wikilink_form tok"
proof (induction k prev s rule: match_all.induct)
  case (1 skip prev)
  show ?case by simp
next
  case (2 k prev c cs)
  then show ?case by simp
next
  case (3 prev c cs)
  show ?case
  proof (cases "wikiLinkRegExp prev (c # cs)")
    case None
    then show ?thesis using 3 by simp
  next
    case (Some res)
    obtain m r where res: "res = (m, r)" by (cases res)
    have "wikilink_form m" using wikiLinkRegExp_sound[of prev "c # cs" m r] Some res by simp
    then show ?thesis using 3(2)[OF Some res[symmetric]] Some res by simp
  qed
qed

lemma starts_with_close_append: "startsWith (js '']]'' @ r) (js '']]'')"
  by (simp add: startsWith_def js_def)

lemma match_title_complete:
  "Y \<noteq> [] \<Longrightarrow> ch CHR 0x0A \<notin> set Y \<Longrightarrow>
   \<exists>m r'. match_title (Y @ js '']]'' @ r) = Some (m, r') \<and> length m \<le> length Y + 2"
proof (induction Y)
  case Nil
  then show ?case by simp
next
  case (Cons c Y)
  have nl: "c \<noteq> ch CHR 0x0A" using Cons.prems by simp
  show ?case
  proof (cases "startsWith (Y @ js '']]'' @ r) (js '']]'')")
    case True
    then show ?thesis using nl by (simp add: length_js)
  next
    case False
    then have "Y \<noteq> []" using starts_with_close_append[of r] by auto
    then obtain m r' where "match_title (Y @ js '']]'' @ r) = Some (m, r')"
      "length m \<le> length Y + 2"
      using Cons by auto
    then show ?thesis using nl False by simp
  qed
qed

lemma match_rest_complete:
  assumes "T = [] \<or> (\<exists>Y. T = ch CHR ''|'' # Y \<and> Y \<noteq> [] \<and> ch CHR 0x0A \<notin> set Y)"
  shows "\<exists>m r'. match_rest (T @ js '']]'' @ r) = Some (m, r') \<and> length m \<le> length T + 2"
  using assms
proof
  assume "T = []"
  then show ?thesis
    using starts_with_close_append[of r]
    by (simp add: match_rest_def length_js) (simp add: js_def ch_def)
next
  assume "\<exists>Y. T = ch CHR ''|'' # Y \<and> Y \<noteq> [] \<and> ch CHR 0x0A \<notin> set Y"
  then obtain Y where y: "T = ch CHR ''|'' # Y" "Y \<noteq> []" "ch CHR 0x0A \<notin> set Y" by blast
  from match_title_complete[OF y(2,3), of r] obtain m r' where
    "match_title (Y @ js '']]'' @ r) = Some (m, r')" "length m \<le> length Y + 2" by blast
  then show ?thesis using y(1) by (simp add: match_rest_def)
qed

lemma match_rest_bound:
  assumes "\<forall>c \<in> set X. c \<noteq> ch CHR ''|'' \<and> c \<noteq> ch CHR 0x0A"
    and "T = [] \<or> (\<exists>Y. T = ch CHR ''|'' # Y \<and> Y \<noteq> [] \<and> ch CHR 0x0A \<notin> set Y)"
    and "match_rest (X @ T @ js '']]'' @ r) = Some (m, r')"
  shows "length m \<le> length X + length T + 2"
proof (cases X)
  case Nil
  then show ?thesis using match_rest_complete[OF assms(2), of r] assms(3) by auto
next
  case (Cons x X')
  then have "x \<noteq> ch CHR ''|''" using assms(1) by simp
  then have "m = js '']]''"
    using assms(3) Cons by (auto simp: match_rest_def split: if_splits)
  then show ?thesis by (simp add: length_js)
qed

lemma match_name_complete:
  assumes "T = [] \<or> (\<exists>Y. T = ch CHR ''|'' # Y \<and> Y \<noteq> [] \<and> ch CHR 0x0A \<notin> set Y)"
  shows "X \<noteq> [] \<Longrightarrow> \<forall>c \<in> set X. c \<noteq> ch CHR ''|'' \<and> c \<noteq> ch CHR 0x0A \<Longrightarrow>
   \<exists>m r'. match_name (X @ T @ js '']]'' @ r) = Some (m, r') \<and>
          length m \<le> length X + length T + 2"
proof (induction X)
  case Nil
  then show ?case by simp
next
  case (Cons c X)
  have ok: "c \<noteq> ch CHR ''|''" "c \<noteq> ch CHR 0x0A"
    and oks: "\<forall>c \<in> set X. c \<noteq> ch CHR ''|'' \<and> c \<noteq> ch CHR 0x0A"
    using Cons.prems by simp_all
  show ?case
  proof (cases "match_rest (X @ T @ js '']]'' @ r)")
    case (Some res)
    obtain m r' where res: "res = (m, r')" by (cases res)
    have "length m \<le> length X + length T + 2"
      using match_rest_bound[OF oks assms, of r m r'] Some res by simp
    then show ?thesis using ok Some res by simp
  next
    case None
    have "X \<noteq> []"
    proof
      assume "X = []"
      then show False using match_rest_complete[OF assms, of r] None by simp
    qed
    then obtain m r' where "match_name (X @ T @ js '']]'' @ r) = Some (m, r')"
      "length m \<le> length X + length T + 2"
      using Cons.IH oks by blast
    then show ?thesis using ok None by simp
  qed
qed

lemma match_open_complete:
  assumes "X \<noteq> []" and "\<forall>c \<in> set X. c \<noteq> ch CHR ''|'' \<and> c \<noteq> ch CHR 0x0A"
    and "T = [] \<or> (\<exists>Y. T = ch CHR ''|'' # Y \<and> Y \<noteq> [] \<and> ch CHR 0x0A \<notin> set Y)"
  shows "\<exists>m r'. match_open (js ''[['' @ X @ T @ js '']]'' @ r) = Some (m, r') \<and>
          length m \<le> length X + length T + 4"
proof -
  obtain m r' where "match_name (X @ T @ js '']]'' @ r) = Some (m, r')"
    "length m \<le> length X + length T + 2"
    using match_name_complete[OF assms(3,1,2), of r] by blast
  then show ?thesis by (simp add: match_open_def startsWith_def js_def)
qed

lemma wikiLinkRegExp_complete:
  assumes "prev \<noteq> Some (ch CHR ''!'')" and "wikilink_form t"
  shows "\<exists>m r'. wikiLinkRegExp prev (t @ r) = Some (m, r') \<and> length m \<le> length t"
proof -
  obtain bang X T where t: "t = bang @ js ''[['' @ X @ T @ js '']]''"
    and bang: "bang = [] \<or> bang = js ''!''"
    and x: "X \<noteq> []" "\<forall>c \<in> set X. c \<noteq> ch CHR ''|'' \<and> c \<noteq> ch CHR 0x0A"
      "T = [] \<or> (\<exists>Y. T = ch CHR ''|'' # Y \<and> Y \<noteq> [] \<and> ch CHR 0x0A \<notin> set Y)"
    using assms(2) unfolding wikilink_form_iff by blast
  obtain m r' where o: "match_open (js ''[['' @ X @ T @ js '']]'' @ r) = Some (m, r')"
    "length m \<le> length X + length T + 4"
    using match_open_complete[OF x, of r] by blast
  from bang show ?thesis
  proof
    assume b: "bang = []"
    have "js ''[['' @ X @ T @ js '']]'' @ r = ch CHR ''['' # (ch CHR ''['' # X @ T @ js '']]'' @ r)"
      by (simp add: js_def)
    moreover have "ch CHR ''['' \<noteq> ch CHR ''!''" by (simp add: ch_def)
    ultimately have "wikiLinkRegExp prev (js ''[['' @ X @ T @ js '']]'' @ r) = Some (m, r')"
      using assms(1) o(1) by (simp add: wikiLinkRegExp_def)
    then show ?thesis using o(2) t b by (auto simp: length_js)
  next
    assume b: "bang = js ''!''"
    have "t @ r = ch CHR ''!'' # (js ''[['' @ X @ T @ js '']]'' @ r)"
      using t b by (simp add: js_def)
    then have "wikiLinkRegExp prev (t @ r) = Some (ch CHR ''!'' # m, r')"
      using assms(1) o(1) by (simp add: wikiLinkRegExp_def)
    then show ?thesis using o(2) t b by (auto simp: length_js)
  qed
qed

lemma match_all_skip: "length s \<le> k \<Longrightarrow> match_all k prev s = []"
proof (induction s arbitrary: k prev)
  case Nil
  show ?case by simp
next
  case (Cons c cs)
  then obtain k' where "k = Suc k'" "length cs \<le> k'" by (cases k) auto
  then show ?case using Cons.IH by simp
qed

lemma wikiLinkRegExp_shortest:
  assumes "wikiLinkRegExp prev s = Some (m, r)" and "k < length m"
  shows "\<not> wikilink_form (take k m)"
proof
  assume f: "wikilink_form (take k m)"
  have p: "prev \<noteq> Some (ch CHR ''!'')" and s: "s = m @ r"
    using wikiLinkRegExp_sound[OF assms(1)] by simp_all
  have "s = take k m @ (drop k m @ r)" using s by simp
  then obtain m' r' where "wikiLinkRegExp prev s = Some (m', r')" "length m' \<le> length (take k m)"
    using wikiLinkRegExp_complete[OF p f, of "drop k m @ r"] by auto
  then show False using assms by simp
qed

lemma wikiLinkRegExp_iff:
  "(wikiLinkRegExp prev s = Some (m, r)) =
     (prev \<noteq> Some (ch CHR ''!'') \<and> s = m @ r \<and> wikilink_form m \<and>
      (\<forall>k<length m. \<not> wikilink_form (take k m)))"
  (is "?L = ?R")
proof
  assume ?L
  then show ?R using wikiLinkRegExp_sound[of prev s m r] wikiLinkRegExp_shortest[of prev s m r]
    by blast
next
  assume r: ?R
  then obtain m' r' where m': "wikiLinkRegExp prev (m @ r) = Some (m', r')"
    "length m' \<le> length m"
    using wikiLinkRegExp_complete[of prev m r] by blast
  have s': "m @ r = m' @ r'" "wikilink_form m'"
    using wikiLinkRegExp_sound[OF m'(1)] by simp_all
  have tk: "m' = take (length m') m"
    using s'(1) m'(2) by (metis append_eq_conv_conj take_append diff_is_0_eq take_0 append_Nil2)
  have "length m' = length m"
  proof (rule ccontr)
    assume "length m' \<noteq> length m"
    then have "length m' < length m" using m'(2) by simp
    then have "\<not> wikilink_form (take (length m') m)" using r by blast
    then show False using tk s'(2) by simp
  qed
  then have "m' = m" using tk by simp
  then have "r' = r" using s'(1) by simp
  then show ?L using m'(1) r \<open>m' = m\<close> by simp
qed

lemma match_document_single:
  assumes "wikilink_form t" and "\<forall>k<length t. \<not> wikilink_form (take k t)"
  shows "match_document t = [t]"
proof -
  have w: "wikiLinkRegExp None (t @ []) = Some (t, [])"
    unfolding wikiLinkRegExp_iff using assms by simp
  have "4 \<le> length t" using assms(1) by (auto simp: wikilink_form_def Let_def split: if_splits)
  then obtain c cs where t: "t = c # cs" by (cases t) auto
  have "match_all (length t - 1) (Some c) cs = []"
    by (rule match_all_skip) (simp add: t)
  then show ?thesis using w by (simp add: match_document_def t)
qed

lemma match_all_resume:
  "match_all (length xs) prev (xs @ r) = match_all 0 (if xs = [] then prev else Some (last xs)) r"
  by (induction xs arbitrary: prev) simp_all

text \<open>After a match the search resumes directly behind it.\<close>

lemma match_all_take:
  assumes "wikiLinkRegExp prev (m @ r) = Some (m, r)"
  shows "match_all 0 prev (m @ r) = m # match_all 0 (Some (last m)) r"
proof -
  have "wikilink_form m" using wikiLinkRegExp_sound[OF assms] by simp
  then have "4 \<le> length m" by (auto simp: wikilink_form_def Let_def split: if_splits)
  then obtain c cs where m: "m = c # cs" by (cases m) auto
  have "match_all (length cs) (Some c) (cs @ r) = match_all 0 (Some (last m)) r"
    by (simp only: match_all_resume) (simp add: m)
  then show ?thesis using assms by (simp add: m)
qed

text \<open>Positions at which the expression does not match are passed one by one.\<close>

lemma match_all_pass:
  assumes "\<forall>i<length p. wikiLinkRegExp (unit_before prev (p @ s) i) (drop i (p @ s)) = None"
  shows "match_all 0 prev (p @ s) = match_all 0 (unit_before prev (p @ s) (length p)) s"
  using assms
proof (induction p arbitrary: prev)
  case Nil
  show ?case by (simp add: unit_before_def)
next
  case (Cons c p)
  have "wikiLinkRegExp (unit_before prev ((c # p) @ s) 0) (drop 0 ((c # p) @ s)) = None"
    using Cons.prems by blast
  then have a: "match_all 0 prev ((c # p) @ s) = match_all 0 (Some c) (p @ s)"
    by (simp add: unit_before_def)
  have "\<forall>i<length p. wikiLinkRegExp (unit_before (Some c) (p @ s) i) (drop i (p @ s)) = None"
  proof (intro allI impI)
    fix i assume "i < length p"
    then have "wikiLinkRegExp (unit_before prev ((c # p) @ s) (Suc i))
                 (drop (Suc i) ((c # p) @ s)) = None"
      using Cons.prems by auto
    then show "wikiLinkRegExp (unit_before (Some c) (p @ s) i) (drop i (p @ s)) = None"
      by (cases "i = 0") (simp_all add: unit_before_def nth_Cons')
  qed
  then have "match_all 0 (Some c) (p @ s)
               = match_all 0 (unit_before (Some c) (p @ s) (length p)) s"
    by (rule Cons.IH)
  also have "unit_before (Some c) (p @ s) (length p)
               = unit_before prev ((c # p) @ s) (length (c # p))"
    by (simp add: unit_before_def nth_Cons')
  finally show ?case using a by simp
qed

lemma match_all_none:
  assumes "\<forall>i<length d. wikiLinkRegExp (unit_before prev d i) (drop i d) = None"
  shows "match_all 0 prev d = []"
  using match_all_pass[of d prev "[]"] assms by simp

lemma match_all_first:
  assumes "\<forall>i<length p. wikiLinkRegExp (unit_before prev (p @ m @ r) i) (drop i (p @ m @ r)) = None"
    and "wikiLinkRegExp (unit_before prev (p @ m @ r) (length p)) (m @ r) = Some (m, r)"
  shows "match_all 0 prev (p @ m @ r) = m # match_all 0 (Some (last m)) r"
  using match_all_pass[OF assms(1)] match_all_take[OF assms(2)] by simp

lemmas match_defs = match_document_def wikiLinkRegExp_def match_open_def match_rest_def

text \<open>
  C9, as stated, fails. In \<open>!![[a]]\<close> the substring \<open>[[a]]\<close> has the form, with no
  leading mark, and nothing is extracted; alone it is extracted. The whole of
  \<open>[[a]]b]]\<close> has the form, with \<open>a]]b\<close> for the name, and only \<open>[[a]]\<close> is extracted.
  From \<open>[[]]\<close>, whose empty name holds no bar and no newline, nothing is extracted.
\<close>

theorem double_mark_counterexample:
  "match_document (js ''!![[a]]'') = [] \<and>
   match_document (js ''[[a]]'') = [js ''[[a]]''] \<and>
   match_document (js ''[[a]]b]]'') = [js ''[[a]]''] \<and>
   match_document (js ''[[]]'') = []"
  by (simp add: match_defs str_defs)

text \<open>
  C9, amended. The extractor scans the text from left to right. At a position, with
  \<open>prev\<close> the code unit before it, the expression matches \<open>m\<close> exactly when \<open>prev\<close> is
  not the mark \<open>!\<close>, the text from there starts with \<open>m\<close>, \<open>m\<close> has the form
  \<open>(!)?[[X(|Y)?]]\<close> with \<open>X\<close> non-empty without bar and newline and \<open>Y\<close> (if present)
  non-empty without newline, and no shorter start of \<open>m\<close> has that form. From a text in
  which the expression matches at no position nothing is extracted. Otherwise the first
  token is the match at the first position where the expression matches, and the tokens
  behind it are those extracted from the text directly behind that match: a position
  inside a token already taken is not tried. Every extracted token has the form, and a
  document that is one such token, with no shorter start of the form, yields exactly that
  token.
\<close>

theorem wikiLinkRegExp_grammar:
  "((wikiLinkRegExp prev s = Some (m, r)) =
      (prev \<noteq> Some (ch CHR ''!'') \<and> s = m @ r \<and> wikilink_form m \<and>
       (\<forall>k<length m. \<not> wikilink_form (take k m)))) \<and>
   (\<forall>tok \<in> set (match_document d). wikilink_form tok) \<and>
   (wikilink_form t \<and> (\<forall>k<length t. \<not> wikilink_form (take k t)) \<longrightarrow> match_document t = [t]) \<and>
   match_document d = match_all 0 None d \<and>
   (\<forall>tok \<in> set (match_all 0 q d). wikilink_form tok) \<and>
   ((\<forall>i<length d. wikiLinkRegExp (unit_before q d i) (drop i d) = None) \<longrightarrow>
      match_all 0 q d = []) \<and>
   ((\<forall>i<length p. wikiLinkRegExp (unit_before q (p @ m' @ r') i) (drop i (p @ m' @ r')) = None) \<and>
    wikiLinkRegExp (unit_before q (p @ m' @ r') (length p)) (m' @ r') = Some (m', r') \<longrightarrow>
      match_all 0 q (p @ m' @ r') = m' # match_all 0 (Some (last m')) r')"
  using wikiLinkRegExp_iff[of prev s m r] match_all_sound[of 0 None d] match_all_sound[of 0 q d]
    match_document_single[of t] match_all_none[of d q] match_all_first[of p q m' r']
  by (simp add: match_document_def)

theorem wikiLinkRegExp_grammar_witness:
  "wikilink_form heart_token \<and>
   match_document heart_token = [heart_token] \<and>
   match_document (js ''[[ broken '' @ [ch CHR 0x0A] @ js ''wikilink ]]'') = [] \<and>
   match_document (js ''[['' @ [ch CHR 0x0A] @ js '' broken wikilink]]'') = [] \<and>
   find_wikilinks test_parser no_pages empty_state
       (js ''[[ broken '' @ [ch CHR 0x0A] @ js ''wikilink ]]'') (Some (js ''/''))
     = (Inr [], empty_state) \<and>
   find_wikilinks test_parser no_pages empty_state
       (js ''[['' @ [ch CHR 0x0A] @ js '' broken wikilink]]'') (Some (js ''/''))
     = (Inr [], empty_state) \<and>
   match_document (js ''x [[a]] and ![[b|c]].'') = [js ''[[a]]'', js ''![[b|c]]''] \<and>
   match_document (js ''[[a|[[c]]'') = [js ''[[a|[[c]]''] \<and>
   match_document (js ''no link'') = []"
proof -
  have e: "wikiLinkRegExp None heart_token = Some (heart_token, [])"
    by (simp add: heart_token_def match_defs str_defs)
  note t = wikiLinkRegExp_grammar[of None heart_token heart_token "[]" heart_token heart_token]
  have f: "wikilink_form heart_token \<and> (\<forall>k<length heart_token. \<not> wikilink_form (take k heart_token))"
    using t[THEN conjunct1] e by simp
  have g: "match_document heart_token = [heart_token]"
    using t[THEN conjunct2, THEN conjunct2, THEN conjunct1, rule_format, OF f] .
  have b1: "match_document (js ''[[ broken '' @ [ch CHR 0x0A] @ js ''wikilink ]]'') = []"
    by (simp add: match_defs str_defs)
  have b2: "match_document (js ''[['' @ [ch CHR 0x0A] @ js '' broken wikilink]]'') = []"
    by (simp add: match_defs str_defs)
  note u = wikiLinkRegExp_grammar[where q = None and p = "js ''x ''" and m' = "js ''[[a]]''"
      and r' = "js '' and ![[b|c]].''" and d = "js ''no link''"]
  have h: "(\<forall>i<length (js ''x '').
              wikiLinkRegExp
                (unit_before None (js ''x '' @ js ''[[a]]'' @ js '' and ![[b|c]].'') i)
                (drop i (js ''x '' @ js ''[[a]]'' @ js '' and ![[b|c]].'')) = None) \<and>
           wikiLinkRegExp
             (unit_before None (js ''x '' @ js ''[[a]]'' @ js '' and ![[b|c]].'')
                (length (js ''x '')))
             (js ''[[a]]'' @ js '' and ![[b|c]].'') = Some (js ''[[a]]'', js '' and ![[b|c]].'')"
    by (simp add: unit_before_def All_less_Suc match_defs str_defs)
  have "match_all 0 None (js ''x '' @ js ''[[a]]'' @ js '' and ![[b|c]].'')
          = js ''[[a]]'' # match_all 0 (Some (last (js ''[[a]]''))) (js '' and ![[b|c]].'')"
    using u[THEN conjunct2, THEN conjunct2, THEN conjunct2, THEN conjunct2, THEN conjunct2,
        THEN conjunct2, rule_format, OF h] .
  then have c1: "match_document (js ''x [[a]] and ![[b|c]].'') = [js ''[[a]]'', js ''![[b|c]]'']"
    by (simp add: match_defs str_defs)
  have c2: "match_document (js ''[[a|[[c]]'') = [js ''[[a|[[c]]'']"
    by (simp add: match_defs str_defs)
  have n: "\<forall>i<length (js ''no link'').
             wikiLinkRegExp (unit_before None (js ''no link'') i) (drop i (js ''no link'')) = None"
    by (simp add: unit_before_def All_less_Suc match_defs str_defs)
  have "match_all 0 None (js ''no link'') = []"
    using u[THEN conjunct2, THEN conjunct2, THEN conjunct2, THEN conjunct2, THEN conjunct2,
        THEN conjunct1, THEN mp, OF n] .
  then have c3: "match_document (js ''no link'') = []" by (simp add: match_document_def)
  show ?thesis using f g b1 b2 c1 c2 c3 by (simp add: find_wikilinks_def)
qed

end
